theory Spec2Isabelle
  imports Complex_Main
begin

section \<open>Monte Carlo tree search: the data model\<close>

text \<open>
  The module \<open>mcts_modified.py\<close> works on a tree of mutable node objects that point at
  their parent and own a dictionary of children. Node objects are kept in an explicit
  store: a reference is an address, the store maps every address to a node, and
  \<open>used\<close> is the next free address (every address below it holds an allocated node).
  Python integers are \<open>int\<close>. The floating-point arithmetic that \<open>ucb\<close> uses (true
  division, \<open>math.log\<close>, \<open>math.sqrt\<close>, sum, product and comparison of doubles) belongs to
  the platform: \<open>ucb_float\<close> and \<open>traverse_nodes_float\<close> take it as a parameter. The
  driver is modelled with one such arithmetic, the exact one on the reals with one extra
  value for \<open>float('inf')\<close>, under the names \<open>ucb\<close> and \<open>traverse_nodes\<close>.
\<close>

type_synonym ref = nat

record 'a MCTSNode =
  parent :: "ref option"
  parent_action :: "'a option"
  child_nodes :: "('a \<times> ref) list"
  untried_actions :: "'a list"
  wins :: int
  visits :: int

record 'a heap =
  cells :: "ref \<Rightarrow> 'a MCTSNode"
  used :: nat

datatype error =
  IndexError | ValueError | AttributeError | KeyError | TypeError | AssertionError
  | OverflowError | ZeroDivisionError

text \<open>
  Modelled from the spec: the constructor of class \<open>MCTSNode\<close> (module \<open>mcts_node\<close>,
  imported by the source). A node is created with the given parent and parent action,
  an empty children mapping, the given action list as its untried actions, and both
  counters at zero.
\<close>

definition MCTSNode_init :: "ref option \<Rightarrow> 'a option \<Rightarrow> 'a list \<Rightarrow> 'a MCTSNode" where
  "MCTSNode_init p pa action_list =
     \<lparr>parent = p, parent_action = pa, child_nodes = [], untried_actions = action_list,
      wins = 0, visits = 0\<rparr>"

definition empty_heap :: "'a heap" where
  "empty_heap = \<lparr>cells = (\<lambda>_. MCTSNode_init None None []), used = 0\<rparr>"

definition alloc :: "'a heap \<Rightarrow> 'a MCTSNode \<Rightarrow> 'a heap \<times> ref" where
  "alloc h n = (h\<lparr>cells := (cells h)(used h := n), used := Suc (used h)\<rparr>, used h)"

definition modify :: "'a heap \<Rightarrow> ref \<Rightarrow> ('a MCTSNode \<Rightarrow> 'a MCTSNode) \<Rightarrow> 'a heap" where
  "modify h r f = h\<lparr>cells := (cells h)(r := f (cells h r))\<rparr>"

text \<open>
  The game engine (class \<open>Board\<close> of module \<open>p2_t3\<close>) is an external collaborator: the
  search only calls these five methods, so the engine is a parameter. \<open>points_values\<close>
  returns \<open>None\<close> or a dictionary from player identity to outcome value.
\<close>

record ('s, 'a) Board =
  current_player :: "'s \<Rightarrow> int"
  legal_actions :: "'s \<Rightarrow> 'a list"
  next_state :: "'s \<Rightarrow> 'a \<Rightarrow> 's"
  is_ended :: "'s \<Rightarrow> bool"
  points_values :: "'s \<Rightarrow> (int \<rightharpoonup> int) option"

text \<open>An action of the engine is a 4-tuple; \<open>rollout\<close> unpacks it as \<open>_, _, r, c\<close>.\<close>

type_synonym action = "int \<times> int \<times> int \<times> int"

definition num_nodes :: nat where
  "num_nodes = 1000"

definition explore_faction :: real where
  "explore_faction = 2"

section \<open>Python's built-ins used by the module\<close>

text \<open>
  \<open>max(iterable, key=f)\<close>: raises \<open>ValueError\<close> on an empty iterable; otherwise it
  walks the items in order, evaluates the key of each item once, and replaces the
  current best only when the new key is strictly greater. An exception raised by a key
  evaluation ends the call.
\<close>

fun max_loop :: "('a \<Rightarrow> error + 'k) \<Rightarrow> ('k \<Rightarrow> 'k \<Rightarrow> bool) \<Rightarrow> 'a \<Rightarrow> 'k \<Rightarrow> 'a list \<Rightarrow> error + 'a" where
  "max_loop key gt best bk [] = Inr best"
| "max_loop key gt best bk (x # xs) =
     (case key x of
        Inl e \<Rightarrow> Inl e
      | Inr k \<Rightarrow> if gt k bk then max_loop key gt x k xs else max_loop key gt best bk xs)"

definition py_max :: "('a \<Rightarrow> error + 'k) \<Rightarrow> ('k \<Rightarrow> 'k \<Rightarrow> bool) \<Rightarrow> 'a list \<Rightarrow> error + 'a" where
  "py_max key gt xs =
     (case xs of
        [] \<Rightarrow> Inl ValueError
      | x # rest \<Rightarrow> (case key x of Inl e \<Rightarrow> Inl e | Inr k \<Rightarrow> max_loop key gt x k rest))"

text \<open>\<open>list.pop()\<close> removes and returns the last item; \<open>IndexError\<close> on an empty list.\<close>

definition list_pop :: "'a list \<Rightarrow> error + ('a \<times> 'a list)" where
  "list_pop xs = (if xs = [] then Inl IndexError else Inr (last xs, butlast xs))"

text \<open>
  \<open>d[k] = v\<close> on a dictionary, kept in insertion order: an existing key keeps its
  position and gets the new value, a new key is added at the end.
\<close>

fun dict_set :: "'k \<Rightarrow> 'v \<Rightarrow> ('k \<times> 'v) list \<Rightarrow> ('k \<times> 'v) list" where
  "dict_set k v [] = [(k, v)]"
| "dict_set k v ((k', v') # kvs) =
     (if k = k' then (k, v) # kvs else (k', v') # dict_set k v kvs)"

text \<open>
  \<open>random.choice(seq)\<close> returns \<open>seq[i]\<close> for a random index \<open>i\<close> below \<open>len(seq)\<close>, and
  raises \<open>IndexError\<close> on an empty sequence. The generator is a parameter: \<open>rnd k\<close> is the
  raw value of draw number \<open>k\<close>, reduced to an index.
\<close>

definition choice :: "(nat \<Rightarrow> nat) \<Rightarrow> nat \<Rightarrow> 'a list \<Rightarrow> error + 'a" where
  "choice rnd k xs = (if xs = [] then Inl IndexError else Inr (xs ! (rnd k mod length xs)))"

section \<open>The selection score\<close>

datatype score = Fin real | Inf

fun score_gt :: "score \<Rightarrow> score \<Rightarrow> bool" where
  "score_gt (Fin x) (Fin y) = (y < x)"
| "score_gt Inf (Fin y) = True"
| "score_gt _ Inf = False"

text \<open>
  \<open>ucb\<close>, lines 86 to 98, in exact arithmetic: no rounding and no overflow. The win rate
  is computed before \<open>node.parent.visits\<close> is read; \<open>node.parent\<close> being \<open>None\<close> raises
  \<open>AttributeError\<close>, \<open>math.log\<close> of a value that is not positive and \<open>math.sqrt\<close> of a
  negative value raise \<open>ValueError\<close>. It is \<open>ucb_float\<close> below at the arithmetic
  \<open>ideal_float\<close> (lemma \<open>ucb_ideal\<close>).
\<close>

definition ucb :: "'a heap \<Rightarrow> ref \<Rightarrow> bool \<Rightarrow> error + score" where
  "ucb h node is_opponent =
     (let n = cells h node in
      if visits n = 0 then Inr Inf
      else
        let win_rate = (if is_opponent then 1 - real_of_int (wins n) / real_of_int (visits n)
                        else real_of_int (wins n) / real_of_int (visits n))
        in case parent n of
             None \<Rightarrow> Inl AttributeError
           | Some p \<Rightarrow>
               let pv = visits (cells h p) in
               if pv \<le> 0 then Inl ValueError
               else
                 let q = ln (real_of_int pv) / real_of_int (visits n) in
                 if q < 0 then Inl ValueError
                 else Inr (Fin (win_rate + explore_faction * sqrt q)))"

section \<open>The four phases\<close>

text \<open>
  \<open>traverse_nodes\<close>, lines 9 to 28. The loop may run forever on a store whose child
  references form a cycle, so the function returns an option: \<open>None\<close> is "does not
  return". The engine receiving \<open>None\<close> in place of an action (the parent action of a
  root) is taken to raise \<open>TypeError\<close>. It is \<open>traverse_nodes_float\<close> below at the
  arithmetic \<open>ideal_float\<close> (lemma \<open>traverse_ideal\<close>).
\<close>

partial_function (option) traverse_nodes ::
  "'a heap \<Rightarrow> ('s, 'a) Board \<Rightarrow> ref \<Rightarrow> 's \<Rightarrow> int \<Rightarrow> (error + (ref \<times> 's)) option" where
  "traverse_nodes h board node state bot_identity =
     (if untried_actions (cells h node) = [] \<and> child_nodes (cells h node) \<noteq> [] then
        (case py_max (\<lambda>child. ucb h child (bot_identity \<noteq> current_player board state))
                score_gt (map snd (child_nodes (cells h node))) of
           Inl e \<Rightarrow> Some (Inl e)
         | Inr child \<Rightarrow>
             (case parent_action (cells h child) of
                None \<Rightarrow> Some (Inl TypeError)
              | Some a \<Rightarrow> traverse_nodes h board child (next_state board state a) bot_identity))
      else Some (Inr (node, state)))"

text \<open>\<open>expand_leaf\<close>, lines 30 to 46.\<close>

definition expand_leaf ::
  "'a heap \<Rightarrow> ('s, 'a) Board \<Rightarrow> ref \<Rightarrow> 's \<Rightarrow> error + ('a heap \<times> ref \<times> 's)" where
  "expand_leaf h board node state =
     (case list_pop (untried_actions (cells h node)) of
        Inl e \<Rightarrow> Inl e
      | Inr (action, rest) \<Rightarrow>
          let h1 = modify h node (\<lambda>n. n\<lparr>untried_actions := rest\<rparr>);
              nxt = next_state board state action;
              (h2, child_node) =
                 alloc h1 (MCTSNode_init (Some node) (Some action) (legal_actions board nxt));
              h3 = modify h2 node
                     (\<lambda>n. n\<lparr>child_nodes := dict_set action child_node (child_nodes n)\<rparr>)
          in Inr (h3, child_node, nxt))"

text \<open>
  \<open>rollout\<close>, lines 48 to 72. The inner \<open>for\<close> loop that builds \<open>weighted_actions\<close> is
  \<open>weigh\<close>, with the list built so far as accumulator.
\<close>

fun weigh :: "action list \<Rightarrow> action list \<Rightarrow> action list" where
  "weigh weighted_actions [] = weighted_actions"
| "weigh weighted_actions (a # actions) =
     (case a of (_, _, r, c) \<Rightarrow>
        if (r, c) = (1, 1) then weigh (weighted_actions @ replicate 5 a) actions
        else if (r \<in> set [0, 2] \<and> c \<in> set [0, 2]) then
          weigh (weighted_actions @ replicate 3 a) actions
        else weigh (weighted_actions @ [a]) actions)"

partial_function (option) rollout ::
  "('s, action) Board \<Rightarrow> (nat \<Rightarrow> nat) \<Rightarrow> nat \<Rightarrow> 's \<Rightarrow> (error + ('s \<times> nat)) option" where
  "rollout board rnd k curr_state =
     (if is_ended board curr_state then Some (Inr (curr_state, k))
      else
        let actions = legal_actions board curr_state in
        if actions = [] then Some (Inr (curr_state, k))
        else
          (case choice rnd k (weigh [] actions) of
             Inl e \<Rightarrow> Some (Inl e)
           | Inr a \<Rightarrow> rollout board rnd (Suc k) (next_state board curr_state a)))"

text \<open>
  \<open>backpropagate\<close>, lines 74 to 84. \<open>node.wins += won\<close> adds the boolean as 0 or 1. The
  loop follows parent references and may run forever on a cyclic store.
\<close>

definition bump :: "bool \<Rightarrow> 'a MCTSNode \<Rightarrow> 'a MCTSNode" where
  "bump won n = n\<lparr>visits := visits n + 1, wins := wins n + (if won then 1 else 0)\<rparr>"

partial_function (option) backpropagate :: "'a heap \<Rightarrow> ref option \<Rightarrow> bool \<Rightarrow> 'a heap option" where
  "backpropagate h node won =
     (case node of
        None \<Rightarrow> Some h
      | Some r \<Rightarrow> backpropagate (modify h r (bump won)) (parent (cells h r)) won)"

text \<open>\<open>get_best_action\<close>, line 108, and \<open>is_win\<close>, lines 110 to 114.\<close>

definition get_best_action :: "'a heap \<Rightarrow> ref \<Rightarrow> error + 'a" where
  "get_best_action h root_node =
     (case py_max (\<lambda>item. Inr (visits (cells h (snd item)))) (\<lambda>x y. y < x)
             (child_nodes (cells h root_node)) of
        Inl e \<Rightarrow> Inl e
      | Inr item \<Rightarrow> Inr (fst item))"

definition is_win :: "('s, 'a) Board \<Rightarrow> 's \<Rightarrow> int \<Rightarrow> error + bool" where
  "is_win board state identity_of_bot =
     (case points_values board state of
        None \<Rightarrow> Inl AssertionError
      | Some outcome \<Rightarrow>
          (case outcome identity_of_bot of
             None \<Rightarrow> Inl KeyError
           | Some v \<Rightarrow> Inr (v = 1)))"

text \<open>
  \<open>think\<close>, lines 116 to 150. One pass of the body of the \<open>for\<close> loop is \<open>think_iter\<close>,
  on the store and the number of random draws made so far; \<open>think_loop n\<close> runs \<open>n\<close>
  passes, and \<open>search n\<close> is lines 125 to 144 with \<open>n\<close> for \<open>num_nodes\<close>: it returns the
  store and the root reference after the loop. The diagnostic \<open>print\<close> is left out.
\<close>

definition think_iter ::
  "('s, action) Board \<Rightarrow> (nat \<Rightarrow> nat) \<Rightarrow> 's \<Rightarrow> int \<Rightarrow> ref \<Rightarrow> action heap \<times> nat \<Rightarrow>
     (error + (action heap \<times> nat)) option" where
  "think_iter board rnd current_state bot_identity root_node hk =
     (case hk of (h, k) \<Rightarrow>
        (case traverse_nodes h board root_node current_state bot_identity of
           None \<Rightarrow> None
         | Some (Inl e) \<Rightarrow> Some (Inl e)
         | Some (Inr (node, state)) \<Rightarrow>
             (case (if untried_actions (cells h node) \<noteq> [] then expand_leaf h board node state
                    else Inr (h, node, state)) of
                Inl e \<Rightarrow> Some (Inl e)
              | Inr (h1, node1, state1) \<Rightarrow>
                  (case rollout board rnd k state1 of
                     None \<Rightarrow> None
                   | Some (Inl e) \<Rightarrow> Some (Inl e)
                   | Some (Inr (final_state, k')) \<Rightarrow>
                       (case is_win board final_state bot_identity of
                          Inl e \<Rightarrow> Some (Inl e)
                        | Inr won \<Rightarrow>
                            (case backpropagate h1 (Some node1) won of
                               None \<Rightarrow> None
                             | Some h2 \<Rightarrow> Some (Inr (h2, k'))))))))"

fun think_loop ::
  "nat \<Rightarrow> ('s, action) Board \<Rightarrow> (nat \<Rightarrow> nat) \<Rightarrow> 's \<Rightarrow> int \<Rightarrow> ref \<Rightarrow> action heap \<times> nat \<Rightarrow>
     (error + (action heap \<times> nat)) option" where
  "think_loop 0 board rnd current_state bot_identity root_node hk = Some (Inr hk)"
| "think_loop (Suc n) board rnd current_state bot_identity root_node hk =
     (case think_iter board rnd current_state bot_identity root_node hk of
        None \<Rightarrow> None
      | Some (Inl e) \<Rightarrow> Some (Inl e)
      | Some (Inr hk') \<Rightarrow> think_loop n board rnd current_state bot_identity root_node hk')"

definition search ::
  "nat \<Rightarrow> ('s, action) Board \<Rightarrow> (nat \<Rightarrow> nat) \<Rightarrow> 's \<Rightarrow> (error + (action heap \<times> ref)) option" where
  "search n board rnd current_state =
     (let bot_identity = current_player board current_state;
          (h0, root_node) =
             alloc empty_heap (MCTSNode_init None None (legal_actions board current_state))
      in case think_loop n board rnd current_state bot_identity root_node (h0, 0) of
           None \<Rightarrow> None
         | Some (Inl e) \<Rightarrow> Some (Inl e)
         | Some (Inr (h, k)) \<Rightarrow> Some (Inr (h, root_node)))"

definition think ::
  "('s, action) Board \<Rightarrow> (nat \<Rightarrow> nat) \<Rightarrow> 's \<Rightarrow> (error + action) option" where
  "think board rnd current_state =
     (case search num_nodes board rnd current_state of
        None \<Rightarrow> None
      | Some (Inl e) \<Rightarrow> Some (Inl e)
      | Some (Inr (h, root_node)) \<Rightarrow> Some (get_best_action h root_node))"

section \<open>Selection with the platform's floating-point arithmetic\<close>

text \<open>
  The operations on doubles that \<open>ucb\<close> performs, as a parameter: \<open>truediv a b\<close> is
  \<open>a / b\<close> on two integers, \<open>log_int n\<close> is \<open>math.log(n)\<close> on an integer, \<open>div_by_int x n\<close>
  is \<open>x / n\<close> for a double and an integer, \<open>sqrt_float\<close> is \<open>math.sqrt\<close>; these four can
  raise (\<open>OverflowError\<close>, \<open>ValueError\<close>, \<open>ZeroDivisionError\<close>). \<open>one_minus x\<close> is \<open>1 - x\<close>,
  \<open>mul_float\<close>, \<open>add_float\<close> and \<open>gt_float\<close> are \<open>*\<close>, \<open>+\<close> and \<open>>\<close> on doubles,
  \<open>inf_float\<close> is \<open>float('inf')\<close> and \<open>explore_float\<close> is the constant \<open>explore_faction = 2.\<close>
  of line 7.
\<close>

record 'f pyfloat =
  truediv :: "int \<Rightarrow> int \<Rightarrow> error + 'f"
  log_int :: "int \<Rightarrow> error + 'f"
  div_by_int :: "'f \<Rightarrow> int \<Rightarrow> error + 'f"
  sqrt_float :: "'f \<Rightarrow> error + 'f"
  one_minus :: "'f \<Rightarrow> 'f"
  mul_float :: "'f \<Rightarrow> 'f \<Rightarrow> 'f"
  add_float :: "'f \<Rightarrow> 'f \<Rightarrow> 'f"
  gt_float :: "'f \<Rightarrow> 'f \<Rightarrow> bool"
  inf_float :: "'f"
  explore_float :: "'f"

text \<open>
  \<open>ucb\<close>, lines 86 to 98, over that arithmetic. The win rate (line 97) is computed first;
  in line 98 \<open>node.parent.visits\<close> is read next (\<open>AttributeError\<close> when there is no
  parent), then the logarithm, the division by \<open>node.visits\<close>, the square root, the
  product and the sum. An operation that raises ends the call.
\<close>

definition ucb_float :: "'f pyfloat \<Rightarrow> 'a heap \<Rightarrow> ref \<Rightarrow> bool \<Rightarrow> error + 'f" where
  "ucb_float fl h node is_opponent =
     (let n = cells h node in
      if visits n = 0 then Inr (inf_float fl)
      else
        (case truediv fl (wins n) (visits n) of
           Inl e \<Rightarrow> Inl e
         | Inr q \<Rightarrow>
             let win_rate = (if is_opponent then one_minus fl q else q) in
             (case parent n of
                None \<Rightarrow> Inl AttributeError
              | Some p \<Rightarrow>
                  (case log_int fl (visits (cells h p)) of
                     Inl e \<Rightarrow> Inl e
                   | Inr l \<Rightarrow>
                       (case div_by_int fl l (visits n) of
                          Inl e \<Rightarrow> Inl e
                        | Inr d \<Rightarrow>
                            (case sqrt_float fl d of
                               Inl e \<Rightarrow> Inl e
                             | Inr r \<Rightarrow>
                                 Inr (add_float fl win_rate
                                        (mul_float fl (explore_float fl) r))))))))"

text \<open>
  \<open>traverse_nodes\<close>, lines 9 to 28, over that arithmetic. What the engine's \<open>next_state\<close>
  does when it is handed \<open>None\<close> for the action (the parent action of a node created
  without one) is the parameter \<open>next_state_none\<close>.
\<close>

partial_function (option) traverse_nodes_float ::
  "'f pyfloat \<Rightarrow> ('s \<Rightarrow> error + 's) \<Rightarrow> 'a heap \<Rightarrow> ('s, 'a) Board \<Rightarrow> ref \<Rightarrow> 's \<Rightarrow> int \<Rightarrow>
     (error + (ref \<times> 's)) option" where
  "traverse_nodes_float fl next_state_none h board node state bot_identity =
     (if untried_actions (cells h node) = [] \<and> child_nodes (cells h node) \<noteq> [] then
        (case py_max (\<lambda>child. ucb_float fl h child (bot_identity \<noteq> current_player board state))
                (gt_float fl) (map snd (child_nodes (cells h node))) of
           Inl e \<Rightarrow> Some (Inl e)
         | Inr child \<Rightarrow>
             (case parent_action (cells h child) of
                None \<Rightarrow>
                  (case next_state_none state of
                     Inl e \<Rightarrow> Some (Inl e)
                   | Inr state' \<Rightarrow>
                       traverse_nodes_float fl next_state_none h board child state' bot_identity)
              | Some a \<Rightarrow>
                  traverse_nodes_float fl next_state_none h board child
                    (next_state board state a) bot_identity))
      else Some (Inr (node, state)))"

section \<open>Definitions used by the statements\<close>

text \<open>
  The outcome of \<open>max\<close> over a list with a key: index \<open>i\<close> holds a maximal key, every
  key was evaluated, and every earlier item has a strictly smaller key (the first
  maximal item wins). \<open>weak_order\<close> is what the comparison must satisfy for that.
\<close>

definition is_first_max :: "('a \<Rightarrow> error + 'k) \<Rightarrow> ('k \<Rightarrow> 'k \<Rightarrow> bool) \<Rightarrow> 'a list \<Rightarrow> nat \<Rightarrow> bool" where
  "is_first_max key gt xs i \<longleftrightarrow>
     i < length xs \<and>
     (\<exists>ki. key (xs ! i) = Inr ki \<and>
        (\<forall>j < length xs. \<exists>kj. key (xs ! j) = Inr kj \<and> \<not> gt kj ki) \<and>
        (\<forall>j < i. \<exists>kj. key (xs ! j) = Inr kj \<and> gt ki kj))"

definition weak_order :: "('k \<Rightarrow> 'k \<Rightarrow> bool) \<Rightarrow> bool" where
  "weak_order gt \<longleftrightarrow>
     (\<forall>a b. gt a b \<longrightarrow> \<not> gt b a) \<and> (\<forall>a b c. \<not> gt a b \<longrightarrow> \<not> gt b c \<longrightarrow> \<not> gt a c)"

text \<open>Concrete stores for the examples.\<close>

definition best_heap :: "string heap" where
  "best_heap =
     \<lparr>cells = (\<lambda>_. MCTSNode_init None None [])
        (0 := \<lparr>parent = None, parent_action = None,
               child_nodes = [(''a'', 1), (''b'', 2), (''c'', 3)],
               untried_actions = [], wins = 4, visits = 10\<rparr>,
         1 := \<lparr>parent = Some 0, parent_action = Some ''a'', child_nodes = [],
               untried_actions = [], wins = 1, visits = 2\<rparr>,
         2 := \<lparr>parent = Some 0, parent_action = Some ''b'', child_nodes = [],
               untried_actions = [], wins = 3, visits = 7\<rparr>,
         3 := \<lparr>parent = Some 0, parent_action = Some ''c'', child_nodes = [],
               untried_actions = [], wins = 0, visits = 1\<rparr>),
      used = 4\<rparr>"

text \<open>
  The weight the spec gives an action in the playout: 5 for the centre cell of the local
  3 by 3 grid, 3 for a corner cell, 1 for any other cell.
\<close>

definition weight_of :: "action \<Rightarrow> nat" where
  "weight_of a =
     (case a of (_, _, r, c) \<Rightarrow>
        if r = 1 \<and> c = 1 then 5
        else if (r = 0 \<or> r = 2) \<and> (c = 0 \<or> c = 2) then 3
        else 1)"

text \<open>
  One legal move of the engine, as a relation from the state after the move to the state
  before it: the engine ends every game in finitely many moves when it is well-founded.
\<close>

definition legal_step :: "('s, 'a) Board \<Rightarrow> ('s \<times> 's) set" where
  "legal_step board = {(s', s). \<exists>a \<in> set (legal_actions board s). s' = next_state board s a}"

text \<open>
  The path of parent references from a node: \<open>parent_path h r ps\<close> holds when \<open>ps\<close> starts
  at \<open>r\<close>, every next item is the parent of the one before, and the last item has no
  parent.
\<close>

fun parent_path :: "'a heap \<Rightarrow> ref \<Rightarrow> ref list \<Rightarrow> bool" where
  "parent_path h r [] = False"
| "parent_path h r (x # ps) =
     (x = r \<and> (case parent (cells h r) of None \<Rightarrow> ps = [] | Some p \<Rightarrow> parent_path h p ps))"

text \<open>
  A small engine for the examples: a pile of tokens, a move takes one token (action
  \<open>(0, 0, 0, 0)\<close>) or two (action \<open>(0, 0, 1, 1)\<close>, legal when two are left), the players
  1 and 2 alternate, and the player who cannot move has lost. A state is the pile and the
  player to move.
\<close>

definition nim :: "(nat \<times> int, action) Board" where
  "nim =
     \<lparr>current_player = (\<lambda>s. snd s),
      legal_actions = (\<lambda>s. if fst s = 0 then [] else if fst s = 1 then [(0, 0, 0, 0)]
                            else [(0, 0, 0, 0), (0, 0, 1, 1)]),
      next_state = (\<lambda>s a. (fst s - (if a = (0, 0, 1, 1) then 2 else 1), 3 - snd s)),
      is_ended = (\<lambda>s. fst s = 0),
      points_values = (\<lambda>s. if fst s = 0
                            then Some [1 \<mapsto> (if snd s = 1 then -1 else 1),
                                       2 \<mapsto> (if snd s = 1 then 1 else -1)]
                            else None)\<rparr>"

definition nim_root_heap :: "action heap" where
  "nim_root_heap = fst (alloc empty_heap (MCTSNode_init None None (legal_actions nim (2, 1))))"

text \<open>
  The shape of a search tree in the store: the root is the node at address 0 and has no
  parent, every other allocated node has a parent allocated before it, and every entry of
  a children mapping leads to a node allocated after its owner, whose parent is the owner
  and whose parent action is the entry's key.
\<close>

definition tree_inv :: "'a heap \<Rightarrow> bool" where
  "tree_inv h \<longleftrightarrow>
     0 < used h \<and> parent (cells h 0) = None \<and>
     (\<forall>r. 0 < r \<and> r < used h \<longrightarrow> (\<exists>p < r. parent (cells h r) = Some p)) \<and>
     (\<forall>r a c. r < used h \<and> (a, c) \<in> set (child_nodes (cells h r)) \<longrightarrow>
        r < c \<and> c < used h \<and> parent (cells h c) = Some r \<and>
        parent_action (cells h c) = Some a)"

text \<open>
  The counters of a search tree: every allocated node has \<open>0 \<le> wins \<le> visits\<close>, and no
  more visits than its parent.
\<close>

definition counters_inv :: "'a heap \<Rightarrow> bool" where
  "counters_inv h \<longleftrightarrow>
     (\<forall>r < used h.
        0 \<le> wins (cells h r) \<and> wins (cells h r) \<le> visits (cells h r) \<and>
        (\<forall>p. parent (cells h r) = Some p \<longrightarrow> visits (cells h r) \<le> visits (cells h p)))"

text \<open>
  Tree descent in the words of the spec. \<open>best_child\<close>: a child of the node whose score
  is maximal among the scores of the node's children, for the given opponent flag.
  \<open>descent\<close>: from a node and its state, while the node has no untried action and has a
  child, move to a best child, with the flag taken from the state before the move, and
  advance the state by the child's parent action; end at a node that has an untried action
  or no child.
\<close>

definition best_child :: "'a heap \<Rightarrow> bool \<Rightarrow> ref \<Rightarrow> ref \<Rightarrow> bool" where
  "best_child h is_opponent n c \<longleftrightarrow>
     c \<in> snd ` set (child_nodes (cells h n)) \<and>
     (\<exists>sc. ucb h c is_opponent = Inr sc \<and>
        (\<forall>c' \<in> snd ` set (child_nodes (cells h n)).
           \<exists>sc'. ucb h c' is_opponent = Inr sc' \<and> \<not> score_gt sc' sc))"

inductive descent :: "'a heap \<Rightarrow> ('s, 'a) Board \<Rightarrow> int \<Rightarrow> ref \<Rightarrow> 's \<Rightarrow> ref \<Rightarrow> 's \<Rightarrow> bool"
  for h :: "'a heap" and board :: "('s, 'a) Board" and bot_identity :: int where
  stop: "untried_actions (cells h n) \<noteq> [] \<or> child_nodes (cells h n) = [] \<Longrightarrow>
         descent h board bot_identity n s n s"
| step: "untried_actions (cells h n) = [] \<Longrightarrow> child_nodes (cells h n) \<noteq> [] \<Longrightarrow>
         best_child h (bot_identity \<noteq> current_player board s) n c \<Longrightarrow>
         parent_action (cells h c) = Some a \<Longrightarrow>
         descent h board bot_identity c (next_state board s a) n' s' \<Longrightarrow>
         descent h board bot_identity n s n' s'"

definition descent_heap :: "action heap" where
  "descent_heap =
     \<lparr>cells = (\<lambda>_. MCTSNode_init None None [])
        (0 := \<lparr>parent = None, parent_action = None,
               child_nodes = [((0, 0, 1, 1), 1), ((0, 0, 0, 0), 2)],
               untried_actions = [], wins = 1, visits = 1\<rparr>,
         1 := \<lparr>parent = Some 0, parent_action = Some (0, 0, 1, 1), child_nodes = [],
               untried_actions = [], wins = 1, visits = 1\<rparr>,
         2 := \<lparr>parent = Some 0, parent_action = Some (0, 0, 0, 0), child_nodes = [],
               untried_actions = [(0, 0, 0, 0)], wins = 0, visits = 0\<rparr>),
      used = 3\<rparr>"

text \<open>
  Lines 136 and 137 of \<open>think\<close>: expansion when the node has an untried action,
  otherwise the node and the state as they are.
\<close>

definition expand_if_untried ::
  "'a heap \<Rightarrow> ('s, 'a) Board \<Rightarrow> ref \<Rightarrow> 's \<Rightarrow> error + ('a heap \<times> ref \<times> 's)" where
  "expand_if_untried h board node state =
     (if untried_actions (cells h node) \<noteq> [] then expand_leaf h board node state
      else Inr (h, node, state))"

text \<open>
  What \<open>n\<close> passes of the loop do to the store: a tree again, the root visited \<open>n\<close> more
  times, and on every node that was there before, wins and visits never smaller, the gain
  in wins at most the gain in visits, the gain in visits at most \<open>n\<close>.
\<close>

definition progress :: "nat \<Rightarrow> 'a heap \<Rightarrow> 'a heap \<Rightarrow> bool" where
  "progress n h h' \<longleftrightarrow>
     tree_inv h' \<and> counters_inv h' \<and> used h \<le> used h' \<and>
     visits (cells h' 0) = visits (cells h 0) + int n \<and>
     (\<forall>x < used h. wins (cells h x) \<le> wins (cells h' x) \<and>
        wins (cells h' x) - wins (cells h x) \<le> visits (cells h' x) - visits (cells h x) \<and>
        visits (cells h' x) - visits (cells h x) \<le> int n)"

text \<open>
  The engine's outcome dictionaries have an entry for player \<open>p\<close>; the store of \<open>think\<close>
  before the loop.
\<close>

definition outcome_defined :: "('s, 'a) Board \<Rightarrow> int \<Rightarrow> bool" where
  "outcome_defined board p \<longleftrightarrow> (\<forall>s m. points_values board s = Some m \<longrightarrow> m p \<noteq> None)"

definition root_heap :: "('s, 'a) Board \<Rightarrow> 's \<Rightarrow> 'a heap" where
  "root_heap board s = fst (alloc empty_heap (MCTSNode_init None None (legal_actions board s)))"

text \<open>
  The state a node stands for: the root (address 0) stands for the state \<open>think\<close> was
  called with, and a node stands for the engine's transition, on its parent action, from
  the state its parent stands for.
\<close>

inductive represents :: "('s, 'a) Board \<Rightarrow> 's \<Rightarrow> 'a heap \<Rightarrow> ref \<Rightarrow> 's \<Rightarrow> bool"
  for board :: "('s, 'a) Board" and s0 :: 's and h :: "'a heap" where
  root: "represents board s0 h 0 s0"
| child: "parent (cells h c) = Some p \<Longrightarrow> parent_action (cells h c) = Some a \<Longrightarrow>
          represents board s0 h p s \<Longrightarrow> represents board s0 h c (next_state board s a)"

text \<open>
  A node's untried actions and the keys of its children mapping share no action, repeat
  none, and together are the legal actions at the state; \<open>actions_inv\<close> says so for every
  allocated node and the state it stands for.
\<close>

definition partitioned :: "('s, 'a) Board \<Rightarrow> 'a MCTSNode \<Rightarrow> 's \<Rightarrow> bool" where
  "partitioned board nd s \<longleftrightarrow>
     distinct (untried_actions nd @ map fst (child_nodes nd)) \<and>
     set (untried_actions nd) \<union> fst ` set (child_nodes nd) = set (legal_actions board s) \<and>
     length (untried_actions nd) + length (child_nodes nd) = length (legal_actions board s)"

definition actions_inv :: "('s, 'a) Board \<Rightarrow> 's \<Rightarrow> 'a heap \<Rightarrow> bool" where
  "actions_inv board s0 h \<longleftrightarrow>
     (\<forall>r < used h. \<exists>s. represents board s0 h r s \<and> partitioned board (cells h r) s)"

text \<open>
  The scores \<open>ucb_float\<close> can return on a store, and what the comparison of doubles must
  satisfy on them for a maximum to be a maximum (it does on doubles that are not NaN).
\<close>

definition scores :: "'f pyfloat \<Rightarrow> 'a heap \<Rightarrow> 'f set" where
  "scores fl h = {sc. \<exists>c is_opponent. ucb_float fl h c is_opponent = Inr sc}"

definition weak_order_on :: "'k set \<Rightarrow> ('k \<Rightarrow> 'k \<Rightarrow> bool) \<Rightarrow> bool" where
  "weak_order_on S gt \<longleftrightarrow>
     (\<forall>a \<in> S. \<forall>b \<in> S. gt a b \<longrightarrow> \<not> gt b a) \<and>
     (\<forall>a \<in> S. \<forall>b \<in> S. \<forall>c \<in> S. \<not> gt a b \<longrightarrow> \<not> gt b c \<longrightarrow> \<not> gt a c)"

text \<open>
  Tree descent in the words of the spec, over the platform's arithmetic. \<open>best_child_float\<close>:
  a child of the node whose score is returned and is not exceeded by the score of any
  child of the node. \<open>descent_float\<close>: from a node and its state, while the node has no
  untried action and has a child, move to a best child, with the opponent flag taken from
  the state before the move, and advance the state by the child's parent action; the
  outcome is the node and state reached when the node has an untried action or no child,
  or the error that scoring a child of the current node raises.
\<close>

definition best_child_float :: "'f pyfloat \<Rightarrow> 'a heap \<Rightarrow> bool \<Rightarrow> ref \<Rightarrow> ref \<Rightarrow> bool" where
  "best_child_float fl h is_opponent n c \<longleftrightarrow>
     c \<in> snd ` set (child_nodes (cells h n)) \<and>
     (\<exists>sc. ucb_float fl h c is_opponent = Inr sc \<and>
        (\<forall>c' \<in> snd ` set (child_nodes (cells h n)).
           \<exists>sc'. ucb_float fl h c' is_opponent = Inr sc' \<and> \<not> gt_float fl sc' sc))"

inductive descent_float ::
  "'f pyfloat \<Rightarrow> 'a heap \<Rightarrow> ('s, 'a) Board \<Rightarrow> int \<Rightarrow> ref \<Rightarrow> 's \<Rightarrow> error + (ref \<times> 's) \<Rightarrow> bool"
  for fl :: "'f pyfloat" and h :: "'a heap" and board :: "('s, 'a) Board" and bot_identity :: int
  where
  stop: "untried_actions (cells h n) \<noteq> [] \<or> child_nodes (cells h n) = [] \<Longrightarrow>
         descent_float fl h board bot_identity n s (Inr (n, s))"
| raise: "untried_actions (cells h n) = [] \<Longrightarrow> child_nodes (cells h n) \<noteq> [] \<Longrightarrow>
          c \<in> snd ` set (child_nodes (cells h n)) \<Longrightarrow>
          ucb_float fl h c (bot_identity \<noteq> current_player board s) = Inl e \<Longrightarrow>
          descent_float fl h board bot_identity n s (Inl e)"
| step: "untried_actions (cells h n) = [] \<Longrightarrow> child_nodes (cells h n) \<noteq> [] \<Longrightarrow>
         best_child_float fl h (bot_identity \<noteq> current_player board s) n c \<Longrightarrow>
         parent_action (cells h c) = Some a \<Longrightarrow>
         descent_float fl h board bot_identity c (next_state board s a) res \<Longrightarrow>
         descent_float fl h board bot_identity n s res"

text \<open>
  Two arithmetics for the examples: the exact one on the reals with one infinity
  (\<open>ideal_float\<close>, where no rounding and no overflow occur), and one whose division of a
  double by an integer always overflows.
\<close>

definition ideal_float :: "score pyfloat" where
  "ideal_float =
     \<lparr>truediv = (\<lambda>a b. if b = 0 then Inl ZeroDivisionError
                        else Inr (Fin (real_of_int a / real_of_int b))),
      log_int = (\<lambda>n. if n \<le> 0 then Inl ValueError else Inr (Fin (ln (real_of_int n)))),
      div_by_int = (\<lambda>x n. if n = 0 then Inl ZeroDivisionError
                           else Inr (case x of Fin r \<Rightarrow> Fin (r / real_of_int n) | Inf \<Rightarrow> Inf)),
      sqrt_float = (\<lambda>x. case x of
                           Fin r \<Rightarrow> if r < 0 then Inl ValueError else Inr (Fin (sqrt r))
                         | Inf \<Rightarrow> Inr Inf),
      one_minus = (\<lambda>x. case x of Fin r \<Rightarrow> Fin (1 - r) | Inf \<Rightarrow> Inf),
      mul_float = (\<lambda>x y. case (x, y) of (Fin a, Fin b) \<Rightarrow> Fin (a * b) | _ \<Rightarrow> Inf),
      add_float = (\<lambda>x y. case (x, y) of (Fin a, Fin b) \<Rightarrow> Fin (a + b) | _ \<Rightarrow> Inf),
      gt_float = score_gt,
      inf_float = Inf,
      explore_float = Fin explore_faction\<rparr>"

definition overflowing_float :: "score pyfloat" where
  "overflowing_float = ideal_float\<lparr>div_by_int := (\<lambda>x n. Inl OverflowError)\<rparr>"

section \<open>Properties of the search\<close>

subsection \<open>Python's max\<close>

lemma is_first_max_snoc_keep:
  assumes "is_first_max key gt ys i" "key (ys ! i) = Inr bk" "key x = Inr k" "\<not> gt k bk"
  shows "is_first_max key gt (ys @ [x]) i"
  using assms unfolding is_first_max_def
  by (auto simp: nth_append less_Suc_eq)

lemma is_first_max_snoc_new:
  assumes "weak_order gt" "is_first_max key gt ys i" "key (ys ! i) = Inr bk" "key x = Inr k" "gt k bk"
  shows "is_first_max key gt (ys @ [x]) (length ys)"
proof -
  have irr: "\<not> gt k k" using assms(1) unfolding weak_order_def by blast
  have a: "\<not> gt bk k" using assms(1,5) unfolding weak_order_def by blast
  have b: "\<exists>kj. key (ys ! j) = Inr kj \<and> \<not> gt kj k \<and> gt k kj" if "j < length ys" for j
  proof -
    from assms(2,3) that obtain kj where kj: "key (ys ! j) = Inr kj" "\<not> gt kj bk"
      unfolding is_first_max_def by auto
    have "\<not> gt kj k" using kj(2) a assms(1) unfolding weak_order_def by blast
    moreover have "gt k kj" using kj(2) assms(1,5) unfolding weak_order_def by blast
    ultimately show ?thesis using kj(1) by blast
  qed
  show ?thesis
    unfolding is_first_max_def using assms(4) irr b
    by (auto simp: nth_append less_Suc_eq)
qed

lemma max_loop_first:
  assumes "weak_order gt"
  shows "is_first_max key gt ys i \<Longrightarrow> best = ys ! i \<Longrightarrow> key best = Inr bk \<Longrightarrow>
         max_loop key gt best bk xs = Inr c \<Longrightarrow>
         \<exists>i'. is_first_max key gt (ys @ xs) i' \<and> c = (ys @ xs) ! i'"
proof (induction xs arbitrary: ys i best bk)
  case Nil
  then show ?case by auto
next
  case (Cons x xs)
  from Cons.prems(4) obtain k where k: "key x = Inr k"
    by (cases "key x") auto
  show ?case
  proof (cases "gt k bk")
    case True
    have fm: "is_first_max key gt (ys @ [x]) (length ys)"
      using is_first_max_snoc_new[OF assms Cons.prems(1) _ k True] Cons.prems(2,3) by simp
    have "max_loop key gt x k xs = Inr c" using Cons.prems(4) k True by simp
    from Cons.IH[OF fm _ _ this] k show ?thesis by simp
  next
    case False
    have fm: "is_first_max key gt (ys @ [x]) i"
      using is_first_max_snoc_keep[OF Cons.prems(1) _ k False] Cons.prems(2,3) by simp
    have i: "i < length ys" using Cons.prems(1) unfolding is_first_max_def by simp
    have "max_loop key gt best bk xs = Inr c" using Cons.prems(4) k False by simp
    from Cons.IH[OF fm _ _ this] Cons.prems(2,3) i show ?thesis by (simp add: nth_append)
  qed
qed

lemma py_max_first:
  assumes "weak_order gt" "py_max key gt xs = Inr c"
  shows "\<exists>i. is_first_max key gt xs i \<and> c = xs ! i"
proof (cases xs)
  case Nil
  with assms(2) show ?thesis by (simp add: py_max_def)
next
  case (Cons x rest)
  with assms(2) obtain k where k: "key x = Inr k" "max_loop key gt x k rest = Inr c"
    by (cases "key x") (auto simp: py_max_def)
  have irr: "\<not> gt k k" using assms(1) unfolding weak_order_def by blast
  have "is_first_max key gt [x] 0"
    unfolding is_first_max_def using k(1) irr by simp
  from max_loop_first[OF assms(1) this _ _ k(2)] k(1) Cons show ?thesis by simp
qed

lemma max_loop_total:
  "\<forall>x \<in> set xs. \<exists>k. key x = Inr k \<Longrightarrow> \<exists>c. max_loop key gt best bk xs = Inr c"
  by (induction xs arbitrary: best bk) auto

lemma py_max_total:
  "xs \<noteq> [] \<Longrightarrow> \<forall>x \<in> set xs. \<exists>k. key x = Inr k \<Longrightarrow> \<exists>c. py_max key gt xs = Inr c"
  using max_loop_total[of _ key gt]
  by (cases xs) (auto simp: py_max_def)

lemma weak_order_int: "weak_order (\<lambda>x y :: int. y < x)"
  unfolding weak_order_def by auto

lemma weak_order_score: "weak_order score_gt"
  unfolding weak_order_def
proof (intro conjI allI impI)
  fix a b show "score_gt a b \<Longrightarrow> \<not> score_gt b a"
    by (cases a; cases b) auto
next
  fix a b c show "\<not> score_gt a b \<Longrightarrow> \<not> score_gt b c \<Longrightarrow> \<not> score_gt a c"
    by (cases a; cases b; cases c) auto
qed

subsection \<open>The recommended action\<close>

text \<open>
  C8. On a root with at least one child, \<open>get_best_action\<close> returns the key of a child
  whose visit count is maximal among the children, and every child before it in the
  iteration order of the children mapping has a strictly smaller visit count: among
  children of equal visit count the first one encountered wins. The witness is the
  scenario of the spec: children visits a: 2, b: 7, c: 1 give b.
\<close>

theorem get_best_action_first_max:
  assumes "child_nodes (cells h root_node) \<noteq> []"
  shows "\<exists>i < length (child_nodes (cells h root_node)).
           get_best_action h root_node = Inr (fst (child_nodes (cells h root_node) ! i)) \<and>
           (\<forall>j < length (child_nodes (cells h root_node)).
              visits (cells h (snd (child_nodes (cells h root_node) ! j)))
                \<le> visits (cells h (snd (child_nodes (cells h root_node) ! i)))) \<and>
           (\<forall>j < i.
              visits (cells h (snd (child_nodes (cells h root_node) ! j)))
                < visits (cells h (snd (child_nodes (cells h root_node) ! i))))"
proof -
  let ?cs = "child_nodes (cells h root_node)"
  let ?key = "\<lambda>item :: 'a \<times> ref. (Inr (visits (cells h (snd item))) :: error + int)"
  let ?gt = "\<lambda>x y :: int. y < x"
  have "\<forall>x \<in> set ?cs. \<exists>k. ?key x = Inr k" by simp
  from py_max_total[OF assms this, of ?gt] obtain c where c: "py_max ?key ?gt ?cs = Inr c"
    by blast
  from py_max_first[OF weak_order_int c] obtain i where
    i: "is_first_max ?key ?gt ?cs i" "c = ?cs ! i" by blast
  have "get_best_action h root_node = Inr (fst (?cs ! i))"
    using c i(2) by (simp add: get_best_action_def)
  then show ?thesis
    using i(1) unfolding is_first_max_def by (auto simp: not_less)
qed

theorem get_best_action_first_max_witness:
  "child_nodes (cells best_heap 0) \<noteq> [] \<and> get_best_action best_heap 0 = Inr ''b''"
proof -
  have cs: "child_nodes (cells best_heap 0) = [(''a'', 1), (''b'', 2), (''c'', 3)]"
    by (simp add: best_heap_def)
  have v: "visits (cells best_heap (Suc 0)) = 2" "visits (cells best_heap 2) = 7"
    "visits (cells best_heap 3) = 1"
    by (simp_all add: best_heap_def)
  have ne: "child_nodes (cells best_heap 0) \<noteq> []" by (simp add: cs)
  from get_best_action_first_max [OF ne] obtain i where
    i: "i < length (child_nodes (cells best_heap 0))"
       "get_best_action best_heap 0 = Inr (fst (child_nodes (cells best_heap 0) ! i))"
       "\<forall>j < length (child_nodes (cells best_heap 0)).
           visits (cells best_heap (snd (child_nodes (cells best_heap 0) ! j)))
             \<le> visits (cells best_heap (snd (child_nodes (cells best_heap 0) ! i)))"
    by blast
  have l: "1 < length (child_nodes (cells best_heap 0))" by (simp add: cs)
  have "visits (cells best_heap (snd (child_nodes (cells best_heap 0) ! 1)))
                \<le> visits (cells best_heap (snd (child_nodes (cells best_heap 0) ! i)))"
    using i(3) l by blast
  moreover from i(1) have "i = 0 \<or> i = 1 \<or> i = 2" by (auto simp: cs)
  ultimately have "i = 1" by (auto simp: cs v)
  with i(2) ne show ?thesis by (simp add: cs)
qed

subsection \<open>The playout\<close>


lemma weigh_Cons:
  "weigh acc (a # actions) = weigh (acc @ replicate (weight_of a) a) actions"
proof -
  obtain R C r c where a: "a = (R, C, r, c)" by (cases a) auto
  show ?thesis unfolding a by (simp add: weight_of_def)
qed


lemma length_weigh: "length acc \<le> length (weigh acc actions)"
proof (induction actions arbitrary: acc)
  case Nil
  then show ?case by simp
next
  case (Cons x actions)
  have "length acc \<le> length (acc @ replicate (weight_of x) x)" by simp
  also have "\<dots> \<le> length (weigh (acc @ replicate (weight_of x) x) actions)"
    by (rule Cons.IH)
  finally show ?case unfolding weigh_Cons .
qed

lemma weight_of_pos: "0 < weight_of a"
  by (cases a) (simp add: weight_of_def)

lemma weigh_nonempty: "actions \<noteq> [] \<Longrightarrow> weigh [] actions \<noteq> []"
proof -
  assume "actions \<noteq> []"
  then obtain x xs where a: "actions = x # xs" by (cases actions) auto
  have "0 < length (replicate (weight_of x) x)" using weight_of_pos[of x] by simp
  also have "\<dots> \<le> length (weigh ([] @ replicate (weight_of x) x) xs)"
    using length_weigh[of "replicate (weight_of x) x" xs] by simp
  finally have "0 < length (weigh [] actions)" unfolding a weigh_Cons .
  then show ?thesis by simp
qed

lemma rollout_ended:
  "is_ended board s \<Longrightarrow> rollout board rnd k s = Some (Inr (s, k))"
  by (subst rollout.simps) simp

lemma rollout_no_actions:
  "legal_actions board s = [] \<Longrightarrow> rollout board rnd k s = Some (Inr (s, k))"
  by (subst rollout.simps) simp

lemma rollout_step:
  assumes "\<not> is_ended board s" "legal_actions board s \<noteq> []"
  shows "rollout board rnd k s =
           rollout board rnd (Suc k)
             (next_state board s
                (weigh [] (legal_actions board s) !
                   (rnd k mod length (weigh [] (legal_actions board s)))))"
  using assms weigh_nonempty[OF assms(2)]
  by (subst rollout.simps) (simp add: choice_def Let_def)

lemma set_weigh: "set (weigh acc actions) = set acc \<union> set actions"
proof (induction actions arbitrary: acc)
  case Nil
  then show ?case by simp
next
  case (Cons x actions)
  have "set (replicate (weight_of x) x) = {x}"
    using weight_of_pos[of x] by (simp add: set_replicate_conv_if)
  then show ?case unfolding weigh_Cons by (simp add: Cons.IH)
qed

lemma rollout_terminates:
  assumes "wf (legal_step board)"
  shows "\<exists>s' k'. rollout board rnd k s = Some (Inr (s', k')) \<and>
                 (is_ended board s' \<or> legal_actions board s' = [])"
  using assms
proof (induction s arbitrary: k rule: wf_induct_rule)
  case (less s)
  show ?case
  proof (cases "is_ended board s \<or> legal_actions board s = []")
    case True
    then show ?thesis using rollout_ended[of board s rnd k] rollout_no_actions[of board s rnd k]
      by auto
  next
    case False
    let ?w = "weigh [] (legal_actions board s)"
    let ?a = "?w ! (rnd k mod length ?w)"
    have "?w \<noteq> []" using False weigh_nonempty by blast
    then have "?a \<in> set ?w" by simp
    then have "?a \<in> set (legal_actions board s)" by (simp add: set_weigh)
    then have "(next_state board s ?a, s) \<in> legal_step board"
      unfolding legal_step_def by blast
    from less.IH[OF this] show ?thesis
      using rollout_step[of board s rnd k] False by simp
  qed
qed



subsection \<open>The store\<close>

lemma cells_modify: "cells (modify h r f) x = (if x = r then f (cells h r) else cells h x)"
  by (simp add: modify_def)

lemma used_modify: "used (modify h r f) = used h"
  by (simp add: modify_def)

lemma bump_fields:
  "parent (bump won n) = parent n" "parent_action (bump won n) = parent_action n"
  "child_nodes (bump won n) = child_nodes n" "untried_actions (bump won n) = untried_actions n"
  "visits (bump won n) = visits n + 1" "wins (bump won n) = wins n + (if won then 1 else 0)"
  by (simp_all add: bump_def)

lemma set_dict_set: "x \<in> set (dict_set k v kvs) \<Longrightarrow> x = (k, v) \<or> x \<in> set kvs"
  by (induction kvs) (auto split: if_splits)

lemma dict_set_mem: "(k, v) \<in> set (dict_set k v kvs)"
  by (induction kvs) auto

lemma map_of_dict_set: "map_of (dict_set k v kvs) k = Some v"
  by (induction kvs) auto

lemma map_of_dict_set_other: "k' \<noteq> k \<Longrightarrow> map_of (dict_set k v kvs) k' = map_of kvs k'"
  by (induction kvs) auto

lemma dict_set_new: "k \<notin> fst ` set kvs \<Longrightarrow> dict_set k v kvs = kvs @ [(k, v)]"
  by (induction kvs) auto

subsection \<open>Backpropagation\<close>

lemma backpropagate_None: "backpropagate h None won = Some h"
  by (subst backpropagate.simps) simp

lemma backpropagate_Some:
  "backpropagate h (Some r) won = backpropagate (modify h r (bump won)) (parent (cells h r)) won"
  by (subst backpropagate.simps) simp

lemma parent_path_cong:
  "(\<And>x. parent (cells h' x) = parent (cells h x)) \<Longrightarrow> parent_path h' r ps = parent_path h r ps"
  by (induction ps arbitrary: r) (auto split: option.splits)

lemma parent_path_bump: "parent_path (modify h x (bump won)) r ps = parent_path h r ps"
  by (rule parent_path_cong) (simp add: cells_modify bump_fields)

lemma backpropagate_path:
  "parent_path h r ps \<Longrightarrow>
   backpropagate h (Some r) won = Some (fold (\<lambda>x g. modify g x (bump won)) ps h)"
proof (induction ps arbitrary: h r)
  case Nil
  then show ?case by simp
next
  case (Cons x ps)
  then have x: "x = r" by simp
  show ?case
  proof (cases "parent (cells h r)")
    case None
    with Cons.prems have "ps = []" by simp
    then show ?thesis using None x by (simp add: backpropagate_Some backpropagate_None)
  next
    case (Some p)
    with Cons.prems have "parent_path h p ps" by simp
    then have "parent_path (modify h r (bump won)) p ps" by (simp add: parent_path_bump)
    from Cons.IH[OF this] show ?thesis using Some x by (simp add: backpropagate_Some)
  qed
qed

lemma used_fold_bump: "used (fold (\<lambda>x g. modify g x (bump won)) ps h) = used h"
  by (induction ps arbitrary: h) (simp_all add: used_modify)

lemma cells_fold_bump:
  "distinct ps \<Longrightarrow>
   cells (fold (\<lambda>x g. modify g x (bump won)) ps h) x =
     (if x \<in> set ps then bump won (cells h x) else cells h x)"
  by (induction ps arbitrary: h) (auto simp: cells_modify)

lemma parent_path_hd: "parent_path h r ps \<Longrightarrow> ps \<noteq> [] \<and> hd ps = r"
  by (cases ps) auto

lemma parent_path_unique: "parent_path h r ps \<Longrightarrow> parent_path h r qs \<Longrightarrow> ps = qs"
proof (induction ps arbitrary: r qs)
  case Nil
  then show ?case by simp
next
  case (Cons x ps)
  then obtain y qs' where qs: "qs = y # qs'" by (cases qs) auto
  show ?case
    using Cons.prems Cons.IH unfolding qs
    by (cases "parent (cells h r)") auto
qed

lemma parent_path_suffix:
  "parent_path h r ps \<Longrightarrow> x \<in> set ps \<Longrightarrow> \<exists>qs. parent_path h x qs \<and> length qs \<le> length ps"
proof (induction ps arbitrary: r)
  case Nil
  then show ?case by simp
next
  case (Cons y ps)
  show ?case
  proof (cases "x = y")
    case True
    with Cons.prems(1) have "parent_path h x (y # ps)" by simp
    then show ?thesis by blast
  next
    case False
    with Cons.prems(2) have xin: "x \<in> set ps" by simp
    then have "ps \<noteq> []" by auto
    with Cons.prems(1) obtain p where "parent_path h p ps"
      by (cases "parent (cells h r)") auto
    from Cons.IH[OF this xin] show ?thesis by auto
  qed
qed

lemma parent_path_distinct: "parent_path h r ps \<Longrightarrow> distinct ps"
proof (induction ps arbitrary: r)
  case Nil
  then show ?case by simp
next
  case (Cons y ps)
  show ?case
  proof (cases "parent (cells h r)")
    case None
    with Cons.prems show ?thesis by simp
  next
    case (Some p)
    with Cons.prems have pp: "parent_path h p ps" and y: "y = r" by simp_all
    have "y \<notin> set ps"
    proof
      assume "y \<in> set ps"
      from parent_path_suffix[OF pp this] obtain qs where
        qs: "parent_path h y qs" "length qs \<le> length ps" by blast
      from parent_path_unique[OF qs(1)] Cons.prems y have "qs = y # ps" by blast
      with qs(2) show False by simp
    qed
    with Cons.IH[OF pp] show ?thesis by simp
  qed
qed

lemma parent_path_last: "parent_path h r ps \<Longrightarrow> parent (cells h (last ps)) = None"
proof (induction ps arbitrary: r)
  case Nil
  then show ?case by simp
next
  case (Cons y ps)
  then show ?case by (cases "parent (cells h r)") (auto split: if_splits)
qed

lemma parent_path_links:
  "parent_path h r ps \<Longrightarrow> Suc i < length ps \<Longrightarrow> parent (cells h (ps ! i)) = Some (ps ! Suc i)"
proof (induction ps arbitrary: r i)
  case Nil
  then show ?case by simp
next
  case (Cons y ps)
  from Cons.prems(2) have ne: "ps \<noteq> []" by auto
  with Cons.prems(1) obtain p where p: "parent (cells h r)  = Some p" "parent_path h p ps" "y = r"
    by (cases "parent (cells h r)") auto
  show ?case
  proof (cases i)
    case 0
    then show ?thesis using p parent_path_hd[OF p(2)] ne by (simp add: hd_conv_nth)
  next
    case (Suc j)
    then show ?thesis using Cons.IH[OF p(2), of j] Cons.prems(2) by simp
  qed
qed

text \<open>
  C6. When the parent references from the node lead to a node without parent (the root)
  along the path \<open>ps\<close>, \<open>backpropagate\<close> returns, and in the store it returns every node on
  the path, the starting node and the root included, has its visit count increased by 1 and
  its win count increased by the outcome (1 for a win, 0 otherwise), with all other fields
  as before; every node off the path is unchanged; the nodes whose visit count changed are
  exactly the nodes of the path, and their number is the length of the path. Called with
  no node, it returns the store as it is.
\<close>

theorem backpropagate_frame:
  assumes "parent_path h node ps"
  shows "(\<exists>h'. backpropagate h (Some node) won = Some h' \<and> used h' = used h \<and>
           (\<forall>x. cells h' x =
              (if x \<in> set ps
               then (cells h x)\<lparr>visits := visits (cells h x) + 1,
                                wins := wins (cells h x) + (if won then 1 else 0)\<rparr>
               else cells h x)) \<and>
           {x. visits (cells h' x) \<noteq> visits (cells h x)} = set ps \<and>
           card {x. visits (cells h' x) = visits (cells h x) + 1} = length ps) \<and>
         hd ps = node \<and> parent (cells h (last ps)) = None \<and>
         (\<forall>i. Suc i < length ps \<longrightarrow> parent (cells h (ps ! i)) = Some (ps ! Suc i)) \<and>
         backpropagate h None won = Some h"
proof -
  let ?h' = "fold (\<lambda>x g. modify g x (bump won)) ps h"
  have d: "distinct ps" using assms by (rule parent_path_distinct)
  have c: "cells ?h' x = (if x \<in> set ps then bump won (cells h x) else cells h x)" for x
    using d by (rule cells_fold_bump)
  have v: "{x. visits (cells ?h' x) \<noteq> visits (cells h x)} = set ps"
    by (auto simp: c bump_fields)
  have "{x. visits (cells ?h' x) = visits (cells h x) + 1} = set ps"
    by (auto simp: c bump_fields)
  then have "card {x. visits (cells ?h' x) = visits (cells h x) + 1} = length ps"
    using d by (simp add: distinct_card)
  with v have 1: "\<exists>h'. backpropagate h (Some node) won = Some h' \<and> used h' = used h \<and>
           (\<forall>x. cells h' x =
              (if x \<in> set ps
               then (cells h x)\<lparr>visits := visits (cells h x) + 1,
                                wins := wins (cells h x) + (if won then 1 else 0)\<rparr>
               else cells h x)) \<and>
           {x. visits (cells h' x) \<noteq> visits (cells h x)} = set ps \<and>
           card {x. visits (cells h' x) = visits (cells h x) + 1} = length ps"
    using backpropagate_path[OF assms, of won] c
    by (simp add: used_fold_bump bump_def)
  have 2: "hd ps = node" using parent_path_hd[OF assms] by simp
  have 3: "parent (cells h (last ps)) = None" using assms by (rule parent_path_last)
  have 4: "\<forall>i. Suc i < length ps \<longrightarrow> parent (cells h (ps ! i)) = Some (ps ! Suc i)"
    using parent_path_links[OF assms] by blast
  from 1 2 3 4 show ?thesis by (simp add: backpropagate_None)
qed

theorem backpropagate_frame_witness:
  "parent_path best_heap 2 [2, 0] \<and>
   (\<exists>h'. backpropagate best_heap (Some 2) True = Some h' \<and>
      visits (cells h' 2) = 8 \<and> wins (cells h' 2) = 4 \<and>
      visits (cells h' 0) = 11 \<and> wins (cells h' 0) = 5 \<and>
      cells h' 1 = cells best_heap 1 \<and> cells h' 3 = cells best_heap 3)"
proof -
  have p: "parent_path best_heap 2 [2, 0]"
    by (simp add: best_heap_def)
  from backpropagate_frame [OF p, of True] obtain h' where
    h': "backpropagate best_heap (Some 2) True = Some h'"
        "\<forall>x. cells h' x =
              (if x \<in> set [2, 0]
               then (cells best_heap x)\<lparr>visits := visits (cells best_heap x) + 1,
                      wins := wins (cells best_heap x) + (if True then 1 else 0)\<rparr>
               else cells best_heap x)"
    by blast
  have c: "cells h' x =
              (if x \<in> set [2, 0]
               then (cells best_heap x)\<lparr>visits := visits (cells best_heap x) + 1,
                      wins := wins (cells best_heap x) + (if True then 1 else 0)\<rparr>
               else cells best_heap x)" for x
    using h'(2) by blast
  have "visits (cells h' 2) = 8" "wins (cells h' 2) = 4"
       "visits (cells h' 0) = 11" "wins (cells h' 0) = 5"
       "cells h' 1 = cells best_heap 1" "cells h' 3 = cells best_heap 3"
    unfolding c by (simp_all add: best_heap_def)
  with p h'(1) show ?thesis by blast
qed

subsection \<open>Expansion\<close>

lemma expand_leaf_empty:
  "untried_actions (cells h node) = [] \<Longrightarrow> expand_leaf h board node state = Inl IndexError"
  by (simp add: expand_leaf_def list_pop_def)

lemma expand_leaf_result:
  assumes "untried_actions (cells h node) \<noteq> []" "node \<noteq> used h"
  shows "\<exists>h'. expand_leaf h board node state =
               Inr (h', used h, next_state board state (last (untried_actions (cells h node)))) \<and>
          used h' = Suc (used h) \<and>
          cells h' node = (cells h node)
             \<lparr>untried_actions := butlast (untried_actions (cells h node)),
              child_nodes := dict_set (last (untried_actions (cells h node))) (used h)
                               (child_nodes (cells h node))\<rparr> \<and>
          cells h' (used h) =
             MCTSNode_init (Some node) (Some (last (untried_actions (cells h node))))
               (legal_actions board
                  (next_state board state (last (untried_actions (cells h node))))) \<and>
          (\<forall>r. r \<noteq> node \<and> r \<noteq> used h \<longrightarrow> cells h' r = cells h r)"
  using assms
  by (simp add: expand_leaf_def list_pop_def alloc_def modify_def Let_def)

text \<open>
  C3. For an allocated node with at least one untried action, \<open>expand_leaf\<close> pops the last
  untried action (exactly that one is removed), computes the next state with the engine,
  creates a new node (at the next free address) whose parent is the node, whose parent
  action is the popped action, whose untried actions are the legal actions at the next
  state and which has no children and zero counters, registers it in the node's children
  under the popped action, changes nothing else, and returns the new node with the next
  state. In the driver, when traversal ends at a node without untried actions, one pass of
  the loop is the playout from the state traversal returned followed by backpropagation
  from that very node on the unchanged store: no expansion takes place.
\<close>

theorem expand_leaf_adds_child:
  assumes "untried_actions (cells h node) \<noteq> []" "node < used h"
  shows "(\<exists>h' action.
           action = last (untried_actions (cells h node)) \<and>
           expand_leaf h board node state = Inr (h', used h, next_state board state action) \<and>
           used h' = Suc (used h) \<and>
           untried_actions (cells h' node) = butlast (untried_actions (cells h node)) \<and>
           untried_actions (cells h node) = untried_actions (cells h' node) @ [action] \<and>
           child_nodes (cells h' node) = dict_set action (used h) (child_nodes (cells h node)) \<and>
           map_of (child_nodes (cells h' node)) action = Some (used h) \<and>
           (\<forall>b. b \<noteq> action \<longrightarrow>
              map_of (child_nodes (cells h' node)) b = map_of (child_nodes (cells h node)) b) \<and>
           parent (cells h' node) = parent (cells h node) \<and>
           parent_action (cells h' node) = parent_action (cells h node) \<and>
           wins (cells h' node) = wins (cells h node) \<and>
           visits (cells h' node) = visits (cells h node) \<and>
           cells h' (used h) =
             \<lparr>parent = Some node, parent_action = Some action, child_nodes = [],
              untried_actions = legal_actions board (next_state board state action),
              wins = 0, visits = 0\<rparr> \<and>
           (\<forall>r. r \<noteq> node \<and> r \<noteq> used h \<longrightarrow> cells h' r = cells h r)) \<and>
         (\<forall>(rnd :: nat \<Rightarrow> nat) k current_state bot_identity root_node g n s.
            traverse_nodes g board root_node current_state bot_identity = Some (Inr (n, s)) \<and>
            untried_actions (cells g n) = [] \<longrightarrow>
            think_iter board rnd current_state bot_identity root_node (g, k) =
              (case rollout board rnd k s of
                 None \<Rightarrow> None
               | Some (Inl e) \<Rightarrow> Some (Inl e)
               | Some (Inr (final_state, k')) \<Rightarrow>
                   (case is_win board final_state bot_identity of
                      Inl e \<Rightarrow> Some (Inl e)
                    | Inr won \<Rightarrow>
                        (case backpropagate g (Some n) won of
                           None \<Rightarrow> None
                         | Some g' \<Rightarrow> Some (Inr (g', k'))))))"
proof -
  have ne: "node \<noteq> used h" using assms(2) by simp
  from expand_leaf_result[OF assms(1) ne, of board state] obtain h' where
    h': "expand_leaf h board node state =
               Inr (h', used h, next_state board state (last (untried_actions (cells h node))))"
        "used h' = Suc (used h)"
        "cells h' node = (cells h node)
             \<lparr>untried_actions := butlast (untried_actions (cells h node)),
              child_nodes := dict_set (last (untried_actions (cells h node))) (used h)
                               (child_nodes (cells h node))\<rparr>"
        "cells h' (used h) =
             MCTSNode_init (Some node) (Some (last (untried_actions (cells h node))))
               (legal_actions board
                  (next_state board state (last (untried_actions (cells h node)))))"
        "\<forall>r. r \<noteq> node \<and> r \<noteq> used h \<longrightarrow> cells h' r = cells h r"
    by blast
  have skip: "think_iter board rnd current_state bot_identity root_node (g, k) =
              (case rollout board rnd k s of
                 None \<Rightarrow> None
               | Some (Inl e) \<Rightarrow> Some (Inl e)
               | Some (Inr (final_state, k')) \<Rightarrow>
                   (case is_win board final_state bot_identity of
                      Inl e \<Rightarrow> Some (Inl e)
                    | Inr won \<Rightarrow>
                        (case backpropagate g (Some n) won of
                           None \<Rightarrow> None
                         | Some g' \<Rightarrow> Some (Inr (g', k')))))"
    if "traverse_nodes g board root_node current_state bot_identity = Some (Inr (n, s)) \<and>
        untried_actions (cells g n) = []"
    for rnd :: "nat \<Rightarrow> nat" and k current_state bot_identity root_node g n s
    using that by (simp add: think_iter_def)
  show ?thesis
    apply (rule conjI)
     apply (rule exI[of _ h'])
     apply (rule exI[of _ "last (untried_actions (cells h node))"])
    using h' assms(1)
     apply (simp add: MCTSNode_init_def map_of_dict_set map_of_dict_set_other)
    using skip apply blast
    done
qed

theorem expand_leaf_adds_child_witness:
  "untried_actions (cells nim_root_heap 0) \<noteq> [] \<and> 0 < used nim_root_heap \<and>
   (\<exists>h'. expand_leaf nim_root_heap nim 0 (2, 1) = Inr (h', 1, (0, 2)) \<and>
      untried_actions (cells h' 0) = [(0, 0, 0, 0)] \<and>
      child_nodes (cells h' 0) = [((0, 0, 1, 1), 1)] \<and>
      untried_actions (cells h' 1) = [] \<and> parent (cells h' 1) = Some 0 \<and> used h' = 2)"
proof -
  have u: "untried_actions (cells nim_root_heap 0) = [(0, 0, 0, 0), (0, 0, 1, 1)]"
    "child_nodes (cells nim_root_heap 0) = []" "used nim_root_heap = Suc 0"
    by (simp_all add: nim_root_heap_def alloc_def empty_heap_def MCTSNode_init_def nim_def)
  have a: "untried_actions (cells nim_root_heap 0) \<noteq> []" "0 < used nim_root_heap"
    by (simp_all add: u)
  from expand_leaf_adds_child [OF a, of nim "(2, 1)"] obtain h' where
    h': "expand_leaf nim_root_heap nim 0 (2, 1) =
           Inr (h', used nim_root_heap,
                next_state nim (2, 1) (last (untried_actions (cells nim_root_heap 0))))"
        "used h' = Suc (used nim_root_heap)"
        "untried_actions (cells h' 0) = butlast (untried_actions (cells nim_root_heap 0))"
        "child_nodes (cells h' 0) =
           dict_set (last (untried_actions (cells nim_root_heap 0))) (used nim_root_heap)
             (child_nodes (cells nim_root_heap 0))"
        "cells h' (used nim_root_heap) =
           \<lparr>parent = Some 0,
            parent_action = Some (last (untried_actions (cells nim_root_heap 0))),
            child_nodes = [],
            untried_actions = legal_actions nim
              (next_state nim (2, 1) (last (untried_actions (cells nim_root_heap 0)))),
            wins = 0, visits = 0\<rparr>"
    by blast
  have n: "next_state nim (2, 1) (0, 0, 1, 1) = (0, 2)" "legal_actions nim (0, 2) = []"
    by (simp_all add: nim_def)
  have "expand_leaf nim_root_heap nim 0 (2, 1) = Inr (h', 1, (0, 2))"
    using h'(1) by (simp add: u n)
  moreover have "untried_actions (cells h' 0) = [(0, 0, 0, 0)]"
    using h'(3) by (simp add: u)
  moreover have "child_nodes (cells h' 0) = [((0, 0, 1, 1), 1)]"
    using h'(4) by (simp add: u)
  moreover have "untried_actions (cells h' 1) = []" "parent (cells h' 1) = Some 0"
    using h'(5) by (simp_all add: u n)
  moreover have "used h' = 2" using h'(2) by (simp add: u)
  ultimately show ?thesis using a by blast
qed

subsection \<open>The tree in the store\<close>

lemma tree_invD:
  assumes "tree_inv h"
  shows "0 < used h" "parent (cells h 0) = None"
    "\<And>r. 0 < r \<Longrightarrow> r < used h \<Longrightarrow> \<exists>p < r. parent (cells h r) = Some p"
    "\<And>r a c. r < used h \<Longrightarrow> (a, c) \<in> set (child_nodes (cells h r)) \<Longrightarrow>
        r < c \<and> c < used h \<and> parent (cells h c) = Some r \<and> parent_action (cells h c) = Some a"
  using assms unfolding tree_inv_def by blast+

lemma tree_inv_cong:
  assumes "tree_inv h" "used h' = used h"
    "\<And>x. parent (cells h' x) = parent (cells h x)"
    "\<And>x. parent_action (cells h' x) = parent_action (cells h x)"
    "\<And>x. child_nodes (cells h' x) = child_nodes (cells h x)"
  shows "tree_inv h'"
  using assms(1) unfolding tree_inv_def assms(2-5) .

lemma tree_inv_root:
  "tree_inv (fst (alloc empty_heap (MCTSNode_init None None acts)))"
  by (auto simp: tree_inv_def alloc_def empty_heap_def MCTSNode_init_def)

lemma counters_inv_root:
  "counters_inv (fst (alloc empty_heap (MCTSNode_init None None acts)))"
  by (simp add: counters_inv_def alloc_def empty_heap_def MCTSNode_init_def)

lemma tree_inv_expand:
  assumes inv: "tree_inv h" and n: "node < used h"
    and ex: "expand_leaf h board node state = Inr (h', c, s')"
  shows "tree_inv h'"
proof -
  have ne: "untried_actions (cells h node) \<noteq> []"
    using ex expand_leaf_empty[of h node board state] by auto
  let ?a = "last (untried_actions (cells h node))"
  from expand_leaf_result[OF ne, of board state] n ex
  have u: "used h' = Suc (used h)"
    and cn: "cells h' node = (cells h node)
             \<lparr>untried_actions := butlast (untried_actions (cells h node)),
              child_nodes := dict_set ?a (used h) (child_nodes (cells h node))\<rparr>"
    and cu: "cells h' (used h) =
             MCTSNode_init (Some node) (Some ?a) (legal_actions board (next_state board state ?a))"
    and co: "\<And>r. r \<noteq> node \<Longrightarrow> r \<noteq> used h \<Longrightarrow> cells h' r = cells h r"
    by auto
  have par': "parent (cells h' r) = parent (cells h r) \<and>
    parent_action (cells h' r) = parent_action (cells h r)" if "r < used h" for r
    using that cn co[of r] by (cases "r = node") auto
  have par: "parent (cells h' r) = parent (cells h r)"
    "parent_action (cells h' r) = parent_action (cells h r)" if "r < used h" for r
    using par'[OF that] by simp_all
  have 1: "0 < used h'" using u by simp
  have 2: "parent (cells h' 0) = None"
    using par(1)[of 0] tree_invD(1,2)[OF inv] by simp
  have 3: "\<exists>p < r. parent (cells h' r) = Some p" if "0 < r" "r < used h'" for r
  proof (cases "r = used h")
    case True
    then show ?thesis using cu n by (auto simp: MCTSNode_init_def)
  next
    case False
    with that u have "r < used h" by simp
    then show ?thesis using tree_invD(3)[OF inv that(1)] par(1)[of r] by simp
  qed
  have 4: "r < c' \<and> c' < used h' \<and> parent (cells h' c') = Some r \<and>
           parent_action (cells h' c') = Some a"
    if rr: "r < used h'" and m: "(a, c') \<in> set (child_nodes (cells h' r))" for r a c'
  proof -
    consider "r = used h" | "r = node" | "r \<noteq> node" "r < used h"
      using rr u by fastforce
    then show ?thesis
    proof cases
      case 1
      with m cu show ?thesis by (simp add: MCTSNode_init_def)
    next
      case 2
      with m cn have "(a, c') \<in> set (dict_set ?a (used h) (child_nodes (cells h node)))"
        by simp
      from set_dict_set[OF this] show ?thesis
      proof
        assume "(a, c') = (?a, used h)"
        then show ?thesis using 2 n u cu by (simp add: MCTSNode_init_def)
      next
        assume "(a, c') \<in> set (child_nodes (cells h node))"
        from tree_invD(4)[OF inv n this] show ?thesis
          using 2 u par[of c'] by simp
      qed
    next
      case 3
      with m co[of r] have "(a, c') \<in> set (child_nodes (cells h r))" by simp
      from tree_invD(4)[OF inv 3(2) this] show ?thesis
        using u par[of c'] by simp
    qed
  qed
  show ?thesis unfolding tree_inv_def using 1 2 3 4 by blast
qed

lemma tree_inv_parent_less:
  assumes "tree_inv h" "r < used h" "parent (cells h r) = Some p"
  shows "p < r"
proof (cases "r = 0")
  case True
  with assms(3) tree_invD(2)[OF assms(1)] show ?thesis by simp
next
  case False
  with tree_invD(3)[OF assms(1), of r] assms(2,3) show ?thesis by auto
qed

lemma counters_inv_expand:
  assumes inv: "counters_inv h" and t: "tree_inv h" and n: "node < used h"
    and ex: "expand_leaf h board node state = Inr (h', c, s')"
  shows "counters_inv h'"
proof -
  have ne: "untried_actions (cells h node) \<noteq> []"
    using ex expand_leaf_empty[of h node board state] by auto
  let ?a = "last (untried_actions (cells h node))"
  from expand_leaf_result[OF ne, of board state] n ex
  have u: "used h' = Suc (used h)"
    and cn: "cells h' node = (cells h node)
             \<lparr>untried_actions := butlast (untried_actions (cells h node)),
              child_nodes := dict_set ?a (used h) (child_nodes (cells h node))\<rparr>"
    and cu: "cells h' (used h) =
             MCTSNode_init (Some node) (Some ?a) (legal_actions board (next_state board state ?a))"
    and co: "\<And>r. r \<noteq> node \<Longrightarrow> r \<noteq> used h \<Longrightarrow> cells h' r = cells h r"
    by auto
  have same': "parent (cells h' r) = parent (cells h r) \<and> wins (cells h' r) = wins (cells h r) \<and>
    visits (cells h' r) = visits (cells h r)" if "r \<noteq> used h" for r
    using that cn co[of r] by (cases "r = node") auto
  have same: "parent (cells h' r) = parent (cells h r)" "wins (cells h' r) = wins (cells h r)"
    "visits (cells h' r) = visits (cells h r)" if "r \<noteq> used h" for r
    using same'[OF that] by simp_all
  have old: "0 \<le> wins (cells h r) \<and> wins (cells h r) \<le> visits (cells h r) \<and>
        (\<forall>p. parent (cells h r) = Some p \<longrightarrow> visits (cells h r) \<le> visits (cells h p))"
    if "r < used h" for r
    using inv that unfolding counters_inv_def by blast
  have "0 \<le> wins (cells h' r) \<and> wins (cells h' r) \<le> visits (cells h' r) \<and>
        (\<forall>p. parent (cells h' r) = Some p \<longrightarrow> visits (cells h' r) \<le> visits (cells h' p))"
    if "r < used h'" for r
  proof (cases "r = used h")
    case True
    have "0 \<le> visits (cells h node)" using old[OF n] by simp
    then show ?thesis using True cu n same(3)[of node] by (simp add: MCTSNode_init_def)
  next
    case False
    with that u have r: "r < used h" by simp
    have "visits (cells h' r) \<le> visits (cells h' p)" if p: "parent (cells h' r) = Some p" for p
    proof (cases "p = used h")
      case True
      have "parent (cells h r) = Some p" using p same(1)[OF False] by simp
      from tree_inv_parent_less[OF t r this] True r show ?thesis by simp
    next
      case pf: False
      then show ?thesis using old[OF r] p same[OF False] same(3)[OF pf] by simp
    qed
    then show ?thesis using old[OF r] same[OF False] by simp
  qed
  then show ?thesis unfolding counters_inv_def by blast
qed

lemma tree_inv_path:
  assumes "tree_inv h"
  shows "r < used h \<Longrightarrow> \<exists>ps. parent_path h r ps \<and> 0 \<in> set ps \<and> (\<forall>x \<in> set ps. x \<le> r)"
proof (induction r rule: less_induct)
  case (less r)
  show ?case
  proof (cases "r = 0")
    case True
    then have "parent_path h r [0]" using tree_invD(2)[OF assms] by simp
    then show ?thesis using True by (intro exI[of _ "[0]"]) simp
  next
    case False
    with tree_invD(3)[OF assms, of r] less.prems obtain p where
      p: "p < r" "parent (cells h r) = Some p" by auto
    from less.IH[OF p(1)] p(1) less.prems obtain ps where
      ps: "parent_path h p ps" "0 \<in> set ps" "\<forall>x \<in> set ps. x \<le> p" by auto
    have "parent_path h r (r # ps)" using p(2) ps(1) by simp
    moreover have "\<forall>x \<in> set (r # ps). x \<le> r" using ps(3) p(1) by auto
    ultimately show ?thesis using ps(2) by (intro exI[of _ "r # ps"]) simp
  qed
qed

lemma parent_path_closed:
  "parent_path h r ps \<Longrightarrow> x \<in> set ps \<Longrightarrow> parent (cells h x) = Some p \<Longrightarrow> p \<in> set ps"
proof (induction ps arbitrary: r)
  case Nil
  then show ?case by simp
next
  case (Cons y ps)
  show ?case
  proof (cases "parent (cells h r)")
    case None
    with Cons.prems show ?thesis by simp
  next
    case (Some q)
    with Cons.prems(1) have q: "parent_path h q ps" "y = r" by simp_all
    show ?thesis
    proof (cases "x = y")
      case True
      with Cons.prems(3) Some q(2) have "p = q" by simp
      with parent_path_hd[OF q(1)] show ?thesis by (cases ps) auto
    next
      case False
      with Cons.prems(2) have "x \<in> set ps" by simp
      from Cons.IH[OF q(1) this Cons.prems(3)] show ?thesis by simp
    qed
  qed
qed

lemma backpropagate_inv:
  assumes t: "tree_inv h" and c: "counters_inv h" and r: "r < used h"
  shows "\<exists>h'. backpropagate h (Some r) won = Some h' \<and> tree_inv h' \<and> counters_inv h' \<and>
           used h' = used h \<and> visits (cells h' 0) = visits (cells h 0) + 1 \<and>
           (\<forall>x. parent (cells h' x) = parent (cells h x) \<and>
                parent_action (cells h' x) = parent_action (cells h x) \<and>
                child_nodes (cells h' x) = child_nodes (cells h x) \<and>
                untried_actions (cells h' x) = untried_actions (cells h x) \<and>
                wins (cells h x) \<le> wins (cells h' x) \<and>
                visits (cells h x) \<le> visits (cells h' x) \<and>
                wins (cells h' x) - wins (cells h x)
                  \<le> visits (cells h' x) - visits (cells h x) \<and>
                visits (cells h' x) \<le> visits (cells h x) + 1)"
proof -
  from tree_inv_path[OF t r] obtain ps where
    ps: "parent_path h r ps" "0 \<in> set ps" by blast
  let ?h' = "fold (\<lambda>x g. modify g x (bump won)) ps h"
  have d: "distinct ps" using ps(1) by (rule parent_path_distinct)
  have cl: "cells ?h' x = (if x \<in> set ps then bump won (cells h x) else cells h x)" for x
    using d by (rule cells_fold_bump)
  have u: "used ?h' = used h" by (rule used_fold_bump)
  have b: "backpropagate h (Some r) won = Some ?h'" using ps(1) by (rule backpropagate_path)
  have f: "parent (cells ?h' x) = parent (cells h x)"
    "parent_action (cells ?h' x) = parent_action (cells h x)"
    "child_nodes (cells ?h' x) = child_nodes (cells h x)"
    "untried_actions (cells ?h' x) = untried_actions (cells h x)" for x
    by (simp_all add: cl bump_fields)
  have ti: "tree_inv ?h'" using t u f(1,2,3) by (rule tree_inv_cong)
  have ci: "counters_inv ?h'"
    unfolding counters_inv_def
  proof (intro allI impI conjI)
    fix x assume "x < used ?h'"
    then have x: "x < used h" using u by simp
    then have o: "0 \<le> wins (cells h x)" "wins (cells h x) \<le> visits (cells h x)"
      "\<And>p. parent (cells h x) = Some p \<Longrightarrow> visits (cells h x) \<le> visits (cells h p)"
      using c unfolding counters_inv_def by blast+
    show "0 \<le> wins (cells ?h' x)" using o(1) by (simp add: cl bump_fields)
    show "wins (cells ?h' x) \<le> visits (cells ?h' x)" using o(2) by (simp add: cl bump_fields)
    fix p assume "parent (cells ?h' x) = Some p"
    then have p: "parent (cells h x) = Some p" by (simp add: f)
    have "x \<in> set ps \<Longrightarrow> p \<in> set ps" using parent_path_closed[OF ps(1) _ p] by blast
    then show "visits (cells ?h' x) \<le> visits (cells ?h' p)"
      using o(3)[OF p] by (auto simp: cl bump_fields)
  qed
  have "visits (cells ?h' 0) = visits (cells h 0) + 1" using ps(2) by (simp add: cl bump_fields)
  moreover have "wins (cells h x) \<le> wins (cells ?h' x)"
    "visits (cells h x) \<le> visits (cells ?h' x)"
    "wins (cells ?h' x) - wins (cells h x) \<le> visits (cells ?h' x) - visits (cells h x)"
    "visits (cells ?h' x) \<le> visits (cells h x) + 1" for x
    by (simp_all add: cl bump_fields)
  ultimately show ?thesis using b ti ci u f by blast
qed

subsection \<open>Tree descent\<close>

lemma ucb_total:
  assumes c: "counters_inv h" and r: "x < used h" and p: "parent (cells h x) = Some n"
  shows "\<exists>sc. ucb h x opp = Inr sc"
proof (cases "visits (cells h x) = 0")
  case True
  then show ?thesis by (simp add: ucb_def)
next
  case False
  from c r p have o: "0 \<le> wins (cells h x)" "wins (cells h x) \<le> visits (cells h x)"
    "visits (cells h x) \<le> visits (cells h n)"
    unfolding counters_inv_def by blast+
  with False have v: "0 < visits (cells h x)" "1 \<le> visits (cells h n)" by linarith+
  then have "0 \<le> ln (real_of_int (visits (cells h n))) / real_of_int (visits (cells h x))"
    by simp
  then have "\<not> ln (real_of_int (visits (cells h n))) / real_of_int (visits (cells h x)) < 0"
    by (simp only: not_less)
  with v p False show ?thesis by (simp add: ucb_def Let_def)
qed

lemma traverse_stop:
  "untried_actions (cells h n) \<noteq> [] \<or> child_nodes (cells h n) = [] \<Longrightarrow>
   traverse_nodes h board n s bot_identity = Some (Inr (n, s))"
  by (subst traverse_nodes.simps) auto

lemma traverse_step:
  assumes "untried_actions (cells h n) = []" "child_nodes (cells h n) \<noteq> []"
    "py_max (\<lambda>child. ucb h child (bot_identity \<noteq> current_player board s)) score_gt
       (map snd (child_nodes (cells h n))) = Inr c"
    "parent_action (cells h c) = Some a"
  shows "traverse_nodes h board n s bot_identity = traverse_nodes h board c (next_state board s a) bot_identity"
  using assms by (subst traverse_nodes.simps) simp

lemma py_max_best_child:
  assumes "py_max (\<lambda>child. ucb h child opp) score_gt (map snd (child_nodes (cells h n))) = Inr c"
  shows "best_child h opp n c"
proof -
  let ?xs = "map snd (child_nodes (cells h n))"
  from py_max_first[OF weak_order_score assms] obtain i where
    i: "is_first_max (\<lambda>child. ucb h child opp) score_gt ?xs i" "c = ?xs ! i" by blast
  from i(1) obtain ki where ki: "i < length ?xs" "ucb h (?xs ! i) opp = Inr ki"
    "\<forall>j < length ?xs. \<exists>kj. ucb h (?xs ! j) opp = Inr kj \<and> \<not> score_gt kj ki"
    unfolding is_first_max_def by blast
  have "c \<in> set ?xs" using ki(1) i(2) by simp
  moreover have "\<exists>sc'. ucb h c' opp = Inr sc' \<and> \<not> score_gt sc' ki" if "c' \<in> set ?xs" for c'
  proof -
    from that obtain j where j: "j < length ?xs" "?xs ! j = c'"
      unfolding in_set_conv_nth by blast
    from ki(3) j(1) have "\<exists>kj. ucb h (?xs ! j) opp = Inr kj \<and> \<not> score_gt kj ki" by blast
    then show ?thesis unfolding j(2) .
  qed
  ultimately show ?thesis unfolding best_child_def using ki(2) i(2) by auto
qed

lemma traverse_descent:
  assumes t: "tree_inv h" and c: "counters_inv h"
  shows "node < used h \<Longrightarrow>
         \<exists>n' s'. traverse_nodes h board node state bot_identity = Some (Inr (n', s')) \<and>
                 descent h board bot_identity node state n' s' \<and> n' < used h"
proof (induction "used h - node" arbitrary: node state rule: less_induct)
  case less
  show ?case
  proof (cases "untried_actions (cells h node) \<noteq> [] \<or> child_nodes (cells h node) = []")
    case True
    have "traverse_nodes h board node state bot_identity = Some (Inr (node, state))"
      using True by (rule traverse_stop)
    moreover have "descent h board bot_identity node state node state"
      using True by (rule descent.stop)
    ultimately show ?thesis using less.prems by blast
  next
    case False
    let ?opp = "bot_identity \<noteq> current_player board state"
    let ?xs = "map snd (child_nodes (cells h node))"
    have kids: "node < x \<and> x < used h \<and> parent (cells h x) = Some node \<and>
                (\<exists>a. parent_action (cells h x) = Some a)" if "x \<in> set ?xs" for x
      using that tree_invD(4)[OF t less.prems] by fastforce
    have "\<forall>x \<in> set ?xs. \<exists>k. ucb h x ?opp = Inr k"
      using kids ucb_total[OF c] by blast
    moreover have "?xs \<noteq> []" using False by simp
    ultimately obtain ch where ch: "py_max (\<lambda>child. ucb h child ?opp) score_gt ?xs = Inr ch"
      using py_max_total[of ?xs "\<lambda>child. ucb h child ?opp" score_gt] by blast
    have bc: "best_child h ?opp node ch" using ch by (rule py_max_best_child)
    then have "ch \<in> set ?xs" unfolding best_child_def by simp
    from kids[OF this] obtain a where
      k: "node < ch" "ch < used h" "parent_action (cells h ch) = Some a" by blast
    have st: "traverse_nodes h board node state bot_identity =
              traverse_nodes h board ch (next_state board state a) bot_identity"
      using traverse_step[OF _ _ ch k(3)] False by simp
    have "used h - ch < used h - node" using k(1,2) by simp
    from less.hyps[OF this k(2), of "next_state board state a"] obtain n' s' where
      r: "traverse_nodes h board ch (next_state board state a) bot_identity = Some (Inr (n', s'))"
         "descent h board bot_identity ch (next_state board state a) n' s'" "n' < used h"
      by blast
    have "descent h board bot_identity node state n' s'"
      using descent.step[OF _ _ bc k(3) r(2)] False by simp
    with r st show ?thesis by simp
  qed
qed

lemma descent_final:
  "descent h board bot_identity n s n' s' \<Longrightarrow>
   untried_actions (cells h n') \<noteq> [] \<or> child_nodes (cells h n') = []"
  by (induction rule: descent.induct) auto

lemma descent_heap_cells:
  "cells descent_heap 0 = \<lparr>parent = None, parent_action = None,
               child_nodes = [((0, 0, 1, 1), 1), ((0, 0, 0, 0), 2)],
               untried_actions = [], wins = 1, visits = 1\<rparr>"
  "cells descent_heap (Suc 0) = \<lparr>parent = Some 0, parent_action = Some (0, 0, 1, 1), child_nodes = [],
               untried_actions = [], wins = 1, visits = 1\<rparr>"
  "cells descent_heap 2 = \<lparr>parent = Some 0, parent_action = Some (0, 0, 0, 0), child_nodes = [],
               untried_actions = [(0, 0, 0, 0)], wins = 0, visits = 0\<rparr>"
  "used descent_heap = 3"
  by (simp_all add: descent_heap_def)

lemma less_3_cases: "r < (3::nat) \<Longrightarrow> r = 0 \<or> r = Suc 0 \<or> r = 2"
  by arith

lemma descent_heap_tree_inv: "tree_inv descent_heap"
  unfolding tree_inv_def
proof (intro conjI allI impI)
  show "0 < used descent_heap" by (simp add: descent_heap_cells)
  show "parent (cells descent_heap 0) = None" by (simp add: descent_heap_cells)
next
  fix r assume "0 < r \<and> r < used descent_heap"
  then have "r = Suc 0 \<or> r = 2" using less_3_cases[of r] by (auto simp: descent_heap_cells)
  then show "\<exists>p<r. parent (cells descent_heap r) = Some p"
    by (auto simp: descent_heap_cells)
next
  fix r a c assume a: "r < used descent_heap \<and> (a, c) \<in> set (child_nodes (cells descent_heap r))"
  then have "r = 0 \<or> r = Suc 0 \<or> r = 2" using less_3_cases[of r] by (simp add: descent_heap_cells)
  with a have r: "r = 0" and ac: "(a, c) = ((0, 0, 1, 1), Suc 0) \<or> (a, c) = ((0, 0, 0, 0), 2)"
    by (auto simp: descent_heap_cells)
  from ac show "r < c" "c < used descent_heap" "parent (cells descent_heap c) = Some r"
    "parent_action (cells descent_heap c) = Some a"
    unfolding r by (auto simp: descent_heap_cells)
qed

subsection \<open>The driver\<close>

lemma expand_if_untried_inv:
  assumes t: "tree_inv h" and c: "counters_inv h" and n: "n < used h"
  shows "\<exists>h1 n1 s1. expand_if_untried h board n s = Inr (h1, n1, s1) \<and>
           tree_inv h1 \<and> counters_inv h1 \<and> n1 < used h1 \<and> used h \<le> used h1 \<and>
           (\<forall>x < used h. wins (cells h1 x) = wins (cells h x) \<and>
                          visits (cells h1 x) = visits (cells h x))"
proof (cases "untried_actions (cells h n) = []")
  case True
  then show ?thesis using t c n by (simp add: expand_if_untried_def)
next
  case False
  have ne: "n \<noteq> used h" using n by simp
  from expand_leaf_result[OF False ne, of board s] obtain h1 where
    h1: "expand_leaf h board n s =
           Inr (h1, used h, next_state board s (last (untried_actions (cells h n))))"
        "used h1 = Suc (used h)"
        "cells h1 n = (cells h n)
             \<lparr>untried_actions := butlast (untried_actions (cells h n)),
              child_nodes := dict_set (last (untried_actions (cells h n))) (used h)
                               (child_nodes (cells h n))\<rparr>"
        "\<forall>r. r \<noteq> n \<and> r \<noteq> used h \<longrightarrow> cells h1 r = cells h r"
    by blast
  have same: "wins (cells h1 x) = wins (cells h x) \<and> visits (cells h1 x) = visits (cells h x)"
    if "x < used h" for x
    using that h1(3,4) by (cases "x = n") auto
  have "tree_inv h1" using t n h1(1) by (rule tree_inv_expand)
  moreover have "counters_inv h1" using c t n h1(1) by (rule counters_inv_expand)
  ultimately show ?thesis
    using False h1(1,2) same by (simp add: expand_if_untried_def)
qed

lemma think_iter_unfold:
  assumes "traverse_nodes h board root_node current_state bot_identity = Some (Inr (n, s))"
    "expand_if_untried h board n s = Inr (h1, n1, s1)"
  shows "think_iter board rnd current_state bot_identity root_node (h, k) =
           (case rollout board rnd k s1 of
              None \<Rightarrow> None
            | Some (Inl e) \<Rightarrow> Some (Inl e)
            | Some (Inr (final_state, k')) \<Rightarrow>
                (case is_win board final_state bot_identity of
                   Inl e \<Rightarrow> Some (Inl e)
                 | Inr won \<Rightarrow>
                     (case backpropagate h1 (Some n1) won of
                        None \<Rightarrow> None
                      | Some h2 \<Rightarrow> Some (Inr (h2, k')))))"
  using assms by (simp add: think_iter_def expand_if_untried_def)

lemma rollout_result:
  "rollout board rnd k s = Some y \<Longrightarrow>
   \<exists>s' k'. y = Inr (s', k') \<and> (is_ended board s' \<or> legal_actions board s' = [])"
proof (erule rollout.raw_induct[rotated], goal_cases)
  case (1 f board rnd k s y)
  note 3 = this
  show ?case
  proof (cases "is_ended board s \<or> legal_actions board s = []")
    case True
    with 3(2) show ?thesis by (auto split: if_splits)
  next
    case False
    then have "weigh [] (legal_actions board s) \<noteq> []" using weigh_nonempty by blast
    with 3(2) False have
      "f board rnd (Suc k)
         (next_state board s
            (weigh [] (legal_actions board s) !
               (rnd k mod length (weigh [] (legal_actions board s))))) = Some y"
      by (simp add: choice_def Let_def)
    from 3(1)[OF this] show ?thesis .
  qed
qed

lemma think_iter_cases:
  assumes t: "tree_inv h" and c: "counters_inv h"
  shows "think_iter board rnd current_state bot_identity 0 (h, k) = None \<or>
         (\<exists>e. think_iter board rnd current_state bot_identity 0 (h, k) = Some (Inl e) \<and>
              (e = AssertionError \<or> e = KeyError)) \<or>
         (\<exists>h' k'. think_iter board rnd current_state bot_identity 0 (h, k) = Some (Inr (h', k')) \<and>
              progress 1 h h')"
proof -
  have r0: "0 < used h" using tree_invD(1)[OF t] .
  from traverse_descent[OF t c r0, of board current_state bot_identity] obtain n s where
    tr: "traverse_nodes h board 0 current_state bot_identity = Some (Inr (n, s))" "n < used h"
    by blast
  from expand_if_untried_inv[OF t c tr(2), of board s] obtain h1 n1 s1 where
    ex: "expand_if_untried h board n s = Inr (h1, n1, s1)" "tree_inv h1" "counters_inv h1"
        "n1 < used h1" "used h \<le> used h1"
        "\<forall>x < used h. wins (cells h1 x) = wins (cells h x) \<and>
                       visits (cells h1 x) = visits (cells h x)"
    by blast
  note u = think_iter_unfold[OF tr(1) ex(1), of rnd k]
  show ?thesis
  proof (cases "rollout board rnd k s1")
    case None
    then show ?thesis using u by simp
  next
    case (Some ro)
    show ?thesis
    proof (cases ro)
      case (Inl e)
      with Some rollout_result[of board rnd k s1 ro] show ?thesis by auto
    next
      case (Inr fk)
      obtain final_state k' where fk: "fk = (final_state, k')" by (cases fk)
      show ?thesis
      proof (cases "is_win board final_state bot_identity")
        case (Inl e)
        then have "e = AssertionError \<or> e = KeyError"
          by (auto simp: is_win_def split: option.splits)
        then show ?thesis using u Some Inr fk Inl by simp
      next
        case won: (Inr won)
        from backpropagate_inv[OF ex(2,3,4), of won] obtain h2 where
          h2: "backpropagate h1 (Some n1) won = Some h2" "tree_inv h2" "counters_inv h2"
              "used h2 = used h1" "visits (cells h2 0) = visits (cells h1 0) + 1"
              "\<forall>x. wins (cells h1 x) \<le> wins (cells h2 x) \<and>
                   wins (cells h2 x) - wins (cells h1 x)
                     \<le> visits (cells h2 x) - visits (cells h1 x) \<and>
                   visits (cells h2 x) \<le> visits (cells h1 x) + 1"
          by blast
        have mono: "wins (cells h x) \<le> wins (cells h2 x) \<and>
                    wins (cells h2 x) - wins (cells h x)
                      \<le> visits (cells h2 x) - visits (cells h x) \<and>
                    visits (cells h2 x) - visits (cells h x) \<le> int 1" if "x < used h" for x
        proof -
          from ex(6) that have "wins (cells h1 x) = wins (cells h x)"
            "visits (cells h1 x) = visits (cells h x)" by blast+
          moreover from h2(6) have "wins (cells h1 x) \<le> wins (cells h2 x)"
            "wins (cells h2 x) - wins (cells h1 x) \<le> visits (cells h2 x) - visits (cells h1 x)"
            "visits (cells h2 x) \<le> visits (cells h1 x) + 1" by blast+
          ultimately show ?thesis by simp
        qed
        have "visits (cells h1 0) = visits (cells h 0)" using ex(6) r0 by blast
        then have "progress 1 h h2"
          unfolding progress_def using h2(2,3,4,5) ex(5) mono by simp
        then show ?thesis using u Some Inr fk won h2(1) by simp
      qed
    qed
  qed
qed


lemma progress_0: "tree_inv h \<Longrightarrow> counters_inv h \<Longrightarrow> progress 0 h h"
  by (simp add: progress_def)

lemma progress_trans:
  assumes "progress n h h1" "progress m h1 h2"
  shows "progress (n + m) h h2"
proof -
  have d: "wins (cells h x) \<le> wins (cells h2 x) \<and>
        wins (cells h2 x) - wins (cells h x) \<le> visits (cells h2 x) - visits (cells h x) \<and>
        visits (cells h2 x) - visits (cells h x) \<le> int (n + m)" if "x < used h" for x
  proof -
    from assms(1) that have a: "wins (cells h x) \<le> wins (cells h1 x)"
        "wins (cells h1 x) - wins (cells h x) \<le> visits (cells h1 x) - visits (cells h x)"
        "visits (cells h1 x) - visits (cells h x) \<le> int n" "x < used h1"
      unfolding progress_def by auto
    from assms(2) a(4) have b: "wins (cells h1 x) \<le> wins (cells h2 x)"
        "wins (cells h2 x) - wins (cells h1 x) \<le> visits (cells h2 x) - visits (cells h1 x)"
        "visits (cells h2 x) - visits (cells h1 x) \<le> int m"
      unfolding progress_def by auto
    from a(1,2,3) b show ?thesis by simp
  qed
  have "used h \<le> used h2" "visits (cells h2 0) = visits (cells h 0) + int (n + m)"
    "tree_inv h2" "counters_inv h2"
    using assms unfolding progress_def by auto
  with d show ?thesis unfolding progress_def by blast
qed

lemma think_loop_cases:
  "tree_inv h \<Longrightarrow> counters_inv h \<Longrightarrow>
   think_loop n board rnd current_state bot_identity 0 (h, k) = None \<or>
   (\<exists>e. think_loop n board rnd current_state bot_identity 0 (h, k) = Some (Inl e) \<and>
        (e = AssertionError \<or> e = KeyError)) \<or>
   (\<exists>h' k'. think_loop n board rnd current_state bot_identity 0 (h, k) = Some (Inr (h', k')) \<and>
        progress n h h')"
proof (induction n arbitrary: h k)
  case 0
  then show ?case by (simp add: progress_0)
next
  case (Suc n)
  note ic = think_iter_cases[OF Suc.prems, of board rnd current_state bot_identity k]
  show ?case
  proof (cases "think_iter board rnd current_state bot_identity 0 (h, k)")
    case None
    then show ?thesis by simp
  next
    case (Some res)
    show ?thesis
    proof (cases res)
      case (Inl e)
      with Some ic have "e = AssertionError \<or> e = KeyError" by simp
      with Some Inl show ?thesis by simp
    next
      case (Inr hk)
      obtain h1 k1 where hk: "hk = (h1, k1)" by (cases hk)
      from Some Inr hk ic have p: "progress 1 h h1" by simp
      have i: "tree_inv h1" "counters_inv h1" using p unfolding progress_def by simp_all
      have eq: "think_loop (Suc n) board rnd current_state bot_identity 0 (h, k) =
                think_loop n board rnd current_state bot_identity 0 (h1, k1)"
        using Some Inr hk by simp
      note ih = Suc.IH[OF i, of k1]
      show ?thesis
      proof (cases "think_loop n board rnd current_state bot_identity 0 (h1, k1)")
        case None
        then show ?thesis using eq by simp
      next
        case s2: (Some res2)
        show ?thesis
        proof (cases res2)
          case (Inl e)
          with s2 ih have "e = AssertionError \<or> e = KeyError" by simp
          with s2 Inl eq show ?thesis by simp
        next
          case r2: (Inr hk2)
          obtain h2 k2 where hk2: "hk2 = (h2, k2)" by (cases hk2)
          from s2 r2 hk2 ih have "progress n h1 h2" by simp
          from progress_trans[OF p this] have "progress (Suc n) h h2" by simp
          then show ?thesis using s2 r2 hk2 eq by simp
        qed
      qed
    qed
  qed
qed

lemma think_iter_total:
  assumes t: "tree_inv h" and c: "counters_inv h"
    and w: "wf (legal_step board)"
    and e: "\<forall>s. legal_actions board s = [] \<longleftrightarrow> is_ended board s"
    and pv: "\<forall>s. points_values board s = None \<longleftrightarrow> \<not> is_ended board s"
  shows "(\<exists>h' k'. think_iter board rnd current_state bot_identity 0 (h, k) = Some (Inr (h', k'))) \<or>
         (think_iter board rnd current_state bot_identity 0 (h, k) = Some (Inl KeyError) \<and>
          \<not> outcome_defined board bot_identity)"
proof -
  have r0: "0 < used h" using tree_invD(1)[OF t] .
  from traverse_descent[OF t c r0, of board current_state bot_identity] obtain n s where
    tr: "traverse_nodes h board 0 current_state bot_identity = Some (Inr (n, s))" "n < used h"
    by blast
  from expand_if_untried_inv[OF t c tr(2), of board s] obtain h1 n1 s1 where
    ex: "expand_if_untried h board n s = Inr (h1, n1, s1)" "tree_inv h1" "counters_inv h1"
        "n1 < used h1"
    by blast
  note u = think_iter_unfold[OF tr(1) ex(1), of rnd k]
  from rollout_terminates[OF w, of rnd k s1] e obtain fs k' where
    ro: "rollout board rnd k s1 = Some (Inr (fs, k'))" "is_ended board fs"
    by blast
  from pv ro(2) obtain m where m: "points_values board fs = Some m" by auto
  show ?thesis
  proof (cases "m bot_identity")
    case None
    then have "is_win board fs bot_identity = Inl KeyError" using m by (simp add: is_win_def)
    moreover have "\<not> outcome_defined board bot_identity"
      using m None unfolding outcome_defined_def by blast
    ultimately show ?thesis using u ro(1) by simp
  next
    case (Some v)
    then have iw: "is_win board fs bot_identity = Inr (v = 1)" using m by (simp add: is_win_def)
    from backpropagate_inv[OF ex(2,3,4), of "v = 1"] obtain h2 where
      "backpropagate h1 (Some n1) (v = 1) = Some h2" by blast
    then show ?thesis using u ro(1) iw by simp
  qed
qed

lemma think_loop_total:
  assumes w: "wf (legal_step board)"
    and e: "\<forall>s. legal_actions board s = [] \<longleftrightarrow> is_ended board s"
    and pv: "\<forall>s. points_values board s = None \<longleftrightarrow> \<not> is_ended board s"
  shows "tree_inv h \<Longrightarrow> counters_inv h \<Longrightarrow>
         (\<exists>h' k'. think_loop n board rnd current_state bot_identity 0 (h, k) = Some (Inr (h', k'))) \<or>
         (think_loop n board rnd current_state bot_identity 0 (h, k) = Some (Inl KeyError) \<and>
          \<not> outcome_defined board bot_identity)"
proof (induction n arbitrary: h k)
  case 0
  then show ?case by simp
next
  case (Suc n)
  from think_iter_total[OF Suc.prems w e pv, of rnd current_state bot_identity k]
  show ?case
  proof
    assume "\<exists>h' k'. think_iter board rnd current_state bot_identity 0 (h, k) = Some (Inr (h', k'))"
    then obtain h1 k1 where
      i: "think_iter board rnd current_state bot_identity 0 (h, k) = Some (Inr (h1, k1))"
      by blast
    with think_iter_cases[OF Suc.prems, of board rnd current_state bot_identity k]
    have "progress 1 h h1" by simp
    then have "tree_inv h1" "counters_inv h1" unfolding progress_def by simp_all
    from Suc.IH[OF this, of k1] show ?case using i by simp
  next
    assume "think_iter board rnd current_state bot_identity 0 (h, k) = Some (Inl KeyError) \<and>
          \<not> outcome_defined board bot_identity"
    then show ?case by simp
  qed
qed

lemma search_unfold:
  "search n board rnd s0 =
     (case think_loop n board rnd s0 (current_player board s0) 0 (root_heap board s0, 0) of
        None \<Rightarrow> None
      | Some (Inl e) \<Rightarrow> Some (Inl e)
      | Some (Inr (h, k)) \<Rightarrow> Some (Inr (h, 0)))"
  by (simp add: search_def root_heap_def alloc_def empty_heap_def)

lemma root_heap_inv: "tree_inv (root_heap board s0)" "counters_inv (root_heap board s0)"
  unfolding root_heap_def by (rule tree_inv_root, rule counters_inv_root)

lemma root_heap_cells:
  "cells (root_heap board s0) 0 = MCTSNode_init None None (legal_actions board s0)"
  "used (root_heap board s0) = Suc 0"
  by (simp_all add: root_heap_def alloc_def empty_heap_def)

lemma search_progress:
  assumes "search n board rnd s0 = Some (Inr (h, root_node))"
  shows "root_node = 0 \<and> progress n (root_heap board s0) h \<and>
         (\<exists>k. think_loop n board rnd s0 (current_player board s0) 0 (root_heap board s0, 0) =
                Some (Inr (h, k)))"
proof -
  note lc = think_loop_cases[where h = "root_heap board s0" and n = n and board = board
      and rnd = rnd and current_state = s0 and bot_identity = "current_player board s0"
      and k = 0, OF root_heap_inv]
  show ?thesis
  proof (cases "think_loop n board rnd s0 (current_player board s0) 0 (root_heap board s0, 0)")
    case None
    with assms show ?thesis by (simp add: search_unfold)
  next
    case (Some res)
    show ?thesis
    proof (cases res)
      case (Inl e)
      with Some assms show ?thesis by (simp add: search_unfold)
    next
      case (Inr hk)
      obtain h' k where hk: "hk = (h', k)" by (cases hk)
      with Some Inr assms have "h' = h" "root_node = 0" by (simp_all add: search_unfold)
      with Some Inr hk lc show ?thesis by simp
    qed
  qed
qed

lemma search_total:
  assumes w: "wf (legal_step board)"
    and e: "\<forall>s. legal_actions board s = [] \<longleftrightarrow> is_ended board s"
    and pv: "\<forall>s. points_values board s = None \<longleftrightarrow> \<not> is_ended board s"
  shows "(\<exists>h. search n board rnd s0 = Some (Inr (h, 0))) \<or>
         (search n board rnd s0 = Some (Inl KeyError) \<and>
          \<not> outcome_defined board (current_player board s0))"
  using think_loop_total[where h = "root_heap board s0" and n = n and rnd = rnd
      and current_state = s0 and bot_identity = "current_player board s0" and k = 0,
      OF w e pv root_heap_inv]
  by (auto simp: search_unfold)

text \<open>
  Every store the driver's loop produces is a tree with well-formed counters, so the
  hypotheses of the statements on \<open>traverse_nodes\<close> and \<open>ucb\<close> hold wherever \<open>think\<close> calls
  them.
\<close>

lemma search_invariants:
  assumes "search n board rnd s0 = Some (Inr (h, root_node))"
  shows "tree_inv h \<and> counters_inv h \<and> root_node < used h"
proof -
  from search_progress[OF assms] have r: "root_node = 0"
    and p: "progress n (root_heap board s0) h" by simp_all
  from p have t: "tree_inv h" and c: "counters_inv h" unfolding progress_def by simp_all
  from tree_invD(1)[OF t] r t c show ?thesis by simp
qed

lemma think_loop_add:
  "think_loop (n + m) board rnd current_state bot_identity root_node x =
     (case think_loop n board rnd current_state bot_identity root_node x of
        None \<Rightarrow> None
      | Some (Inl e) \<Rightarrow> Some (Inl e)
      | Some (Inr x') \<Rightarrow> think_loop m board rnd current_state bot_identity root_node x')"
proof (induction n arbitrary: x)
  case 0
  then show ?case by simp
next
  case (Suc n)
  show ?case
  proof (cases "think_iter board rnd current_state bot_identity root_node x")
    case None
    then show ?thesis by simp
  next
    case (Some res)
    then show ?thesis using Suc.IH by (cases res) simp_all
  qed
qed

lemma get_best_action_error: "get_best_action h r = Inl e \<Longrightarrow> e = ValueError"
proof -
  assume a: "get_best_action h r = Inl e"
  let ?key = "\<lambda>item :: 'a \<times> ref. (Inr (visits (cells h (snd item))) :: error + int)"
  show ?thesis
  proof (cases "child_nodes (cells h r)")
    case Nil
    with a show ?thesis by (simp add: get_best_action_def py_max_def)
  next
    case (Cons x xs)
    then have ne: "child_nodes (cells h r) \<noteq> []" by simp
    have "\<forall>x \<in> set (child_nodes (cells h r)). \<exists>k. ?key x = Inr k" by simp
    from py_max_total[OF ne this, of "\<lambda>x y. y < x"] a show ?thesis
      by (auto simp: get_best_action_def)
  qed
qed

lemma nim_wf: "wf (legal_step nim)"
proof (rule wf_subset[OF wf_measure[of fst]])
  show "legal_step nim \<subseteq> measure fst"
    by (auto simp: legal_step_def nim_def split: if_splits)
qed

lemma nim_ended: "\<forall>s. legal_actions nim s = [] \<longleftrightarrow> is_ended nim s"
  by (simp add: nim_def)

lemma nim_points: "\<forall>s. points_values nim s = None \<longleftrightarrow> \<not> is_ended nim s"
  by (simp add: nim_def)

lemma nim_outcome: "outcome_defined nim 1"
  unfolding outcome_defined_def by (auto simp: nim_def split: if_splits)

lemma search_one_child:
  assumes l: "legal_actions board s0 \<noteq> []"
    and s: "search 1 board rnd s0 = Some (Inr (h, root_node))"
  shows "length (child_nodes (cells h root_node)) = 1 \<and> used h = 2"
proof -
  let ?h0 = "root_heap board s0"
  let ?b = "current_player board s0"
  have un: "untried_actions (cells ?h0 0) \<noteq> []" "child_nodes (cells ?h0 0) = []"
    using l by (simp_all add: root_heap_cells MCTSNode_init_def)
  have tr: "traverse_nodes ?h0 board 0 s0 ?b = Some (Inr (0, s0))"
    using un(1) by (simp add: traverse_stop)
  have ne: "0 \<noteq> used ?h0" by (simp add: root_heap_cells)
  from expand_leaf_result[OF un(1) ne, of board s0] obtain h1 where
    h1: "expand_leaf ?h0 board 0 s0 =
           Inr (h1, used ?h0, next_state board s0 (last (untried_actions (cells ?h0 0))))"
        "used h1 = Suc (used ?h0)"
        "cells h1 0 = (cells ?h0 0)
             \<lparr>untried_actions := butlast (untried_actions (cells ?h0 0)),
              child_nodes := dict_set (last (untried_actions (cells ?h0 0))) (used ?h0)
                               (child_nodes (cells ?h0 0))\<rparr>"
    by blast
  have ex: "expand_if_untried ?h0 board 0 s0 =
           Inr (h1, used ?h0, next_state board s0 (last (untried_actions (cells ?h0 0))))"
    using un(1) h1(1) by (simp add: expand_if_untried_def)
  have r0: "0 < used ?h0" by (simp add: root_heap_cells)
  have t1: "tree_inv h1" using root_heap_inv(1) r0 h1(1) by (rule tree_inv_expand)
  have c1: "counters_inv h1" using root_heap_inv(2,1) r0 h1(1) by (rule counters_inv_expand)
  have n1: "used ?h0 < used h1" using h1(2) by simp
  have ch: "length (child_nodes (cells h1 0)) = 1" "used h1 = 2"
    using h1(2,3) un(2) by (simp_all add: root_heap_cells)
  note u = think_iter_unfold[OF tr ex, of rnd 0]
  note sp = search_progress[OF s]
  from sp have rn: "root_node = 0" by simp
  from sp obtain k where
    tl: "think_loop 1 board rnd s0 ?b 0 (?h0, 0) = Some (Inr (h, k))" by blast
  have ti: "think_iter board rnd s0 ?b 0 (?h0, 0) = Some (Inr (h, k))"
  proof (cases "think_iter board rnd s0 ?b 0 (?h0, 0)")
    case None
    with tl show ?thesis by simp
  next
    case (Some res)
    with tl show ?thesis by (cases res) simp_all
  qed
  have "\<exists>won. backpropagate h1 (Some (used ?h0)) won = Some h"
  proof (cases "rollout board rnd 0 (next_state board s0 (last (untried_actions (cells ?h0 0))))")
    case None
    with ti u show ?thesis by simp
  next
    case (Some ro)
    show ?thesis
    proof (cases ro)
      case (Inl e)
      with Some ti u show ?thesis by simp
    next
      case (Inr fk)
      obtain fs k' where fk: "fk = (fs, k')" by (cases fk)
      show ?thesis
      proof (cases "is_win board fs ?b")
        case (Inl e)
        with Some Inr fk ti u show ?thesis by simp
      next
        case w: (Inr won)
        show ?thesis
        proof (cases "backpropagate h1 (Some (used ?h0)) won")
          case None
          with Some Inr fk w ti u show ?thesis by simp
        next
          case bs: (Some h2)
          with Some Inr fk w ti u have "h2 = h" by simp
          with bs show ?thesis by blast
        qed
      qed
    qed
  qed
  then obtain won where b: "backpropagate h1 (Some (used ?h0)) won = Some h" by blast
  from backpropagate_inv[OF t1 c1 n1, of won] b
  have "used h = used h1" "child_nodes (cells h 0) = child_nodes (cells h1 0)" by auto
  with ch rn show ?thesis by simp
qed

text \<open>
  C7. When the driver's loop completes \<open>n\<close> passes, the root's visit count is exactly
  \<open>n\<close> (1000 for the module's \<open>num_nodes\<close>); with a budget of 1 on a root state that has a
  legal action, the root ends with exactly one child, the one node expanded. The loop does
  complete when the engine ends every game, has no legal action exactly at ended states,
  gives an outcome exactly at ended states, and the outcome has an entry for the bot.
\<close>

theorem root_visits_equal_budget:
  "(\<forall>h root_node. search n board rnd s0 = Some (Inr (h, root_node)) \<longrightarrow>
      visits (cells h root_node) = int n \<and>
      (n = 1 \<and> legal_actions board s0 \<noteq> [] \<longrightarrow>
         length (child_nodes (cells h root_node)) = 1 \<and> used h = 2)) \<and>
   (\<forall>h root_node. search num_nodes board rnd s0 = Some (Inr (h, root_node)) \<longrightarrow>
      visits (cells h root_node) = 1000) \<and>
   (wf (legal_step board) \<and> (\<forall>s. legal_actions board s = [] \<longleftrightarrow> is_ended board s) \<and>
    (\<forall>s. points_values board s = None \<longleftrightarrow> \<not> is_ended board s) \<and>
    outcome_defined board (current_player board s0) \<longrightarrow>
      (\<exists>h root_node. search n board rnd s0 = Some (Inr (h, root_node))))"
proof -
  have v: "visits (cells h root_node) = int n"
    if "search n board rnd s0 = Some (Inr (h, root_node))" for n h root_node
  proof -
    from search_progress[OF that] have "root_node = 0" "progress n (root_heap board s0) h"
      by simp_all
    then show ?thesis
      unfolding progress_def by (simp add: root_heap_cells MCTSNode_init_def)
  qed
  have 1: "\<forall>h root_node. search n board rnd s0 = Some (Inr (h, root_node)) \<longrightarrow>
      visits (cells h root_node) = int n \<and>
      (n = 1 \<and> legal_actions board s0 \<noteq> [] \<longrightarrow>
         length (child_nodes (cells h root_node)) = 1 \<and> used h = 2)"
  proof (intro allI impI conjI)
    fix h root_node assume a: "search n board rnd s0 = Some (Inr (h, root_node))"
    then show "visits (cells h root_node) = int n" by (rule v)
    assume b: "n = 1 \<and> legal_actions board s0 \<noteq> []"
    with a have "search 1 board rnd s0 = Some (Inr (h, root_node))" by simp
    from search_one_child[OF _ this] b
    show "length (child_nodes (cells h root_node)) = 1" "used h = 2" by simp_all
  qed
  have 2: "\<forall>h root_node. search num_nodes board rnd s0 = Some (Inr (h, root_node)) \<longrightarrow>
      visits (cells h root_node) = 1000"
    using v[of num_nodes] by (simp add: num_nodes_def)
  have 3: "\<exists>h root_node. search n board rnd s0 = Some (Inr (h, root_node))"
    if "wf (legal_step board) \<and> (\<forall>s. legal_actions board s = [] \<longleftrightarrow> is_ended board s) \<and>
        (\<forall>s. points_values board s = None \<longleftrightarrow> \<not> is_ended board s) \<and>
        outcome_defined board (current_player board s0)"
    using search_total[of board n rnd s0] that by blast
  from 3 have c3: "wf (legal_step board) \<and> (\<forall>s. legal_actions board s = [] \<longleftrightarrow> is_ended board s) \<and>
    (\<forall>s. points_values board s = None \<longleftrightarrow> \<not> is_ended board s) \<and>
    outcome_defined board (current_player board s0) \<longrightarrow>
      (\<exists>h root_node. search n board rnd s0 = Some (Inr (h, root_node)))" by (rule impI)
  from 1 2 c3 show ?thesis by (intro conjI)
qed

theorem root_visits_equal_budget_witness:
  "(\<exists>h root_node. search 1 nim (\<lambda>_. 0) (2, 1) = Some (Inr (h, root_node)) \<and>
      visits (cells h root_node) = 1 \<and> length (child_nodes (cells h root_node)) = 1) \<and>
   (\<exists>h root_node. search 5 nim (\<lambda>_. 0) (2, 1) = Some (Inr (h, root_node)) \<and>
      visits (cells h root_node) = 5)"
proof -
  have o: "outcome_defined nim (current_player nim (2, 1))"
    using nim_outcome by (simp add: nim_def)
  have l: "legal_actions nim (2, 1) \<noteq> []" by (simp add: nim_def)
  note w = conjI[OF nim_wf conjI[OF nim_ended conjI[OF nim_points o]]]
  note t1 = root_visits_equal_budget [of 1 nim "\<lambda>_. 0" "(2, 1)"]
  note t5 = root_visits_equal_budget [of 5 nim "\<lambda>_. 0" "(2, 1)"]
  from t1 w obtain h root_node where
    s1: "search 1 nim (\<lambda>_. 0) (2, 1) = Some (Inr (h, root_node))" by blast
  from t1 s1 l have "visits (cells h root_node) = 1"
    "length (child_nodes (cells h root_node)) = 1" by auto
  with s1 have 1: "\<exists>h root_node. search 1 nim (\<lambda>_. 0) (2, 1) = Some (Inr (h, root_node)) \<and>
      visits (cells h root_node) = 1 \<and> length (child_nodes (cells h root_node)) = 1"
    by blast
  from t5 w obtain h5 r5 where
    s5: "search 5 nim (\<lambda>_. 0) (2, 1) = Some (Inr (h5, r5))" by blast
  from t5 s5 have "visits (cells h5 r5) = 5" by auto
  with s5 have 2: "\<exists>h root_node. search 5 nim (\<lambda>_. 0) (2, 1) = Some (Inr (h, root_node)) \<and>
      visits (cells h root_node) = 5"
    by blast
  from 1 2 show ?thesis by (rule conjI)
qed

lemma progressD:
  assumes "progress n h h'"
  shows "tree_inv h'" "counters_inv h'" "used h \<le> used h'"
    "\<And>x. x < used h \<Longrightarrow> wins (cells h x) \<le> wins (cells h' x) \<and>
        wins (cells h' x) - wins (cells h x) \<le> visits (cells h' x) - visits (cells h x) \<and>
        visits (cells h' x) - visits (cells h x) \<le> int n"
  using assms unfolding progress_def by blast+

lemma search_later:
  assumes a: "search n board rnd s0 = Some (Inr (h, root_node))"
    and b: "search (n + m) board rnd s0 = Some (Inr (h', root_node'))"
  shows "progress m h h'"
proof -
  let ?b = "current_player board s0"
  from search_progress[OF a] obtain k where
    k: "think_loop n board rnd s0 ?b 0 (root_heap board s0, 0) = Some (Inr (h, k))"
    and p: "progress n (root_heap board s0) h" by blast
  from search_progress[OF b] obtain k' where
    k': "think_loop (n + m) board rnd s0 ?b 0 (root_heap board s0, 0) = Some (Inr (h', k'))"
    by blast
  have "think_loop m board rnd s0 ?b 0 (h, k) = Some (Inr (h', k'))"
    using k' unfolding think_loop_add k by simp
  with think_loop_cases[OF progressD(1,2)[OF p], of m board rnd s0 ?b k]
  show ?thesis by simp
qed

text \<open>
  C10. After any number of passes of the driver's loop, every node of the tree has
  \<open>0 \<le> wins \<le> visits\<close>. Between the store after \<open>n\<close> passes and the store after \<open>m\<close>
  more, no node is lost, and on every node wins and visits are never smaller, the gain in
  wins is at most the gain in visits, and the gain in visits is at most \<open>m\<close> (so one pass
  adds at most 1 to a node's visits and at most that to its wins).
\<close>

theorem wins_bounded_by_visits:
  "(\<forall>h root_node. search n board rnd s0 = Some (Inr (h, root_node)) \<longrightarrow>
      (\<forall>r < used h. 0 \<le> wins (cells h r) \<and> wins (cells h r) \<le> visits (cells h r))) \<and>
   (\<forall>h root_node h' root_node'.
      search n board rnd s0 = Some (Inr (h, root_node)) \<and>
      search (n + m) board rnd s0 = Some (Inr (h', root_node')) \<longrightarrow>
      used h \<le> used h' \<and>
      (\<forall>r < used h.
         wins (cells h r) \<le> wins (cells h' r) \<and> visits (cells h r) \<le> visits (cells h' r) \<and>
         wins (cells h' r) - wins (cells h r) \<le> visits (cells h' r) - visits (cells h r) \<and>
         visits (cells h' r) - visits (cells h r) \<le> int m))"
proof (intro conjI allI impI)
  fix h root_node r
  assume a: "search n board rnd s0 = Some (Inr (h, root_node))" and r: "r < used h"
  from search_progress[OF a] have "counters_inv h" using progressD(2) by blast
  with r show "0 \<le> wins (cells h r)" "wins (cells h r) \<le> visits (cells h r)"
    unfolding counters_inv_def by blast+
next
  fix h root_node h' root_node'
  assume a: "search n board rnd s0 = Some (Inr (h, root_node)) \<and>
      search (n + m) board rnd s0 = Some (Inr (h', root_node'))"
  have p: "progress m h h'" using search_later[OF conjunct1[OF a] conjunct2[OF a]] .
  show "used h \<le> used h'" using progressD(3)[OF p] .
  fix r assume r: "r < used h"
  from progressD(4)[OF p r]
  show "wins (cells h r) \<le> wins (cells h' r)"
    "wins (cells h' r) - wins (cells h r) \<le> visits (cells h' r) - visits (cells h r)"
    "visits (cells h' r) - visits (cells h r) \<le> int m"
    by simp_all
  with progressD(4)[OF p r] show "visits (cells h r) \<le> visits (cells h' r)" by linarith
qed

theorem wins_bounded_by_visits_witness:
  "\<exists>h root_node h' root_node'.
      search 2 nim (\<lambda>_. 0) (2, 1) = Some (Inr (h, root_node)) \<and>
      search 3 nim (\<lambda>_. 0) (2, 1) = Some (Inr (h', root_node')) \<and>
      0 < used h \<and> 0 \<le> wins (cells h 0) \<and> wins (cells h 0) \<le> visits (cells h 0) \<and>
      wins (cells h 0) \<le> wins (cells h' 0) \<and> visits (cells h 0) \<le> visits (cells h' 0) \<and>
      wins (cells h' 0) \<le> visits (cells h' 0)"
proof -
  have o: "outcome_defined nim (current_player nim (2, 1))"
    using nim_outcome by (simp add: nim_def)
  from search_total[OF nim_wf nim_ended nim_points, of 2 "\<lambda>_. 0" "(2, 1)"] o obtain h where
    h: "search 2 nim (\<lambda>_. 0) (2, 1) = Some (Inr (h, 0))" by blast
  from search_total[OF nim_wf nim_ended nim_points, of 3 "\<lambda>_. 0" "(2, 1)"] o obtain h' where
    h': "search 3 nim (\<lambda>_. 0) (2, 1) = Some (Inr (h', 0))" by blast
  have u: "0 < used h" using search_progress[OF h] progressD(1) tree_invD(1) by blast
  have u': "0 < used h'" using search_progress[OF h'] progressD(1) tree_invD(1) by blast
  note t2 = wins_bounded_by_visits [of 2 nim "\<lambda>_. 0" "(2, 1)" 1]
  note t3 = wins_bounded_by_visits [of 3 nim "\<lambda>_. 0" "(2, 1)" 0]
  from t2 h u have 1: "0 \<le> wins (cells h 0)" "wins (cells h 0) \<le> visits (cells h 0)"
    by blast+
  from t3 h' u' have 2: "wins (cells h' 0) \<le> visits (cells h' 0)" by blast
  have h3: "search (2 + 1) nim (\<lambda>_. 0) (2, 1) = Some (Inr (h', 0))" using h' by simp
  from t2 h h3 u have 3: "wins (cells h 0) \<le> wins (cells h' 0)"
    "visits (cells h 0) \<le> visits (cells h' 0)" by blast+
  from h h' u 1 2 3 show ?thesis by blast
qed

lemma think_unfold:
  "think board rnd s0 =
     (case search num_nodes board rnd s0 of
        None \<Rightarrow> None
      | Some (Inl e) \<Rightarrow> Some (Inl e)
      | Some (Inr (h, root_node)) \<Rightarrow> Some (get_best_action h root_node))"
  by (simp add: think_def)

text \<open>
  C4. Assume the engine ends every game (no infinite sequence of legal moves), has an
  empty list of legal actions exactly at ended states, and returns an outcome exactly at
  ended states. Then \<open>rollout\<close> returns, from every state and for every random source, a
  state at which \<open>is_ended\<close> holds, where the outcome is defined and the assertion of
  \<open>is_win\<close> passes; and the driver loop (for every budget) and \<open>think\<close> return without
  \<open>AssertionError\<close>: since the outcome is undefined exactly at states that are not ended,
  \<open>is_win\<close> is never evaluated at such a state.
\<close>

theorem rollout_ends_game:
  assumes w: "wf (legal_step board)"
    and e: "\<forall>s. legal_actions board s = [] \<longleftrightarrow> is_ended board s"
    and pv: "\<forall>s. points_values board s = None \<longleftrightarrow> \<not> is_ended board s"
  shows "(\<exists>s' k'. rollout board rnd k s = Some (Inr (s', k')) \<and> is_ended board s' \<and>
            points_values board s' \<noteq> None \<and>
            is_win board s' bot_identity \<noteq> Inl AssertionError) \<and>
         (\<exists>res. search n board rnd s0 = Some res \<and> res \<noteq> Inl AssertionError) \<and>
         (\<exists>res. think board rnd s0 = Some res \<and> res \<noteq> Inl AssertionError)"
proof (intro conjI)
  from rollout_terminates[OF w, of rnd k s] e obtain s' k' where
    r: "rollout board rnd k s = Some (Inr (s', k'))" "is_ended board s'" by blast
  from pv r(2) obtain m where m: "points_values board s' = Some m" by auto
  then have "is_win board s' bot_identity \<noteq> Inl AssertionError"
    by (simp add: is_win_def split: option.splits)
  with r m show "\<exists>s' k'. rollout board rnd k s = Some (Inr (s', k')) \<and> is_ended board s' \<and>
            points_values board s' \<noteq> None \<and>
            is_win board s' bot_identity \<noteq> Inl AssertionError"
    by auto
next
  from search_total[OF w e pv, of n rnd s0]
  show "\<exists>res. search n board rnd s0 = Some res \<and> res \<noteq> Inl AssertionError"
    by auto
next
  from search_total[OF w e pv, of num_nodes rnd s0]
  show "\<exists>res. think board rnd s0 = Some res \<and> res \<noteq> Inl AssertionError"
  proof
    assume "\<exists>h. search num_nodes board rnd s0 = Some (Inr (h, 0))"
    then obtain h where h: "search num_nodes board rnd s0 = Some (Inr (h, 0))" by blast
    then have t: "think board rnd s0 = Some (get_best_action h 0)" by (simp add: think_unfold)
    have "get_best_action h 0 \<noteq> Inl AssertionError"
      using get_best_action_error[of h 0 AssertionError] by auto
    with t show ?thesis by simp
  next
    assume "search num_nodes board rnd s0 = Some (Inl KeyError) \<and>
          \<not> outcome_defined board (current_player board s0)"
    then have "think board rnd s0 = Some (Inl KeyError)" by (simp add: think_unfold)
    then show ?thesis by simp
  qed
qed

theorem rollout_ends_game_witness:
  "wf (legal_step nim) \<and>
   (\<exists>s' k'. rollout nim (\<lambda>_. 0) 0 (2, 1) = Some (Inr (s', k')) \<and> is_ended nim s' \<and>
      is_win nim s' 1 \<noteq> Inl AssertionError) \<and>
   (\<exists>res. think nim (\<lambda>_. 0) (2, 1) = Some res \<and> res \<noteq> Inl AssertionError)"
  using nim_wf rollout_ends_game [OF nim_wf nim_ended nim_points, of "\<lambda>_. 0" 0 "(2, 1)" 1 0 "(2, 1)"]
  by blast

subsection \<open>Untried actions and children\<close>

lemma represents_mono:
  assumes t: "tree_inv h"
    and f: "\<And>x. x < used h \<Longrightarrow> parent (cells h' x) = parent (cells h x) \<and>
                 parent_action (cells h' x) = parent_action (cells h x)"
  shows "represents board s0 h r s \<Longrightarrow> r < used h \<Longrightarrow> represents board s0 h' r s"
proof (induction rule: represents.induct)
  case root
  show ?case by (rule represents.root)
next
  case (child c p a s)
  have "p < c" using tree_inv_parent_less[OF t child.prems child.hyps(1)] .
  then have "p < used h" using child.prems by simp
  from child.IH[OF this] have r: "represents board s0 h' p s" .
  have "parent (cells h' c) = Some p" "parent_action (cells h' c) = Some a"
    using f[OF child.prems] child.hyps(1,2) by simp_all
  then show ?case using r by (rule represents.child)
qed

lemma represents_unique:
  assumes t: "tree_inv h"
  shows "represents board s0 h r s \<Longrightarrow> r < used h \<Longrightarrow> represents board s0 h r s' \<Longrightarrow> s = s'"
proof (induction arbitrary: s' rule: represents.induct)
  case root
  from root.prems(2) show ?case
  proof (cases rule: represents.cases)
    case root
    then show ?thesis by simp
  next
    case (child p a s)
    with tree_invD(2)[OF t] show ?thesis by simp
  qed
next
  case (child c p a s)
  have pc: "p < c" using tree_inv_parent_less[OF t child.prems(1) child.hyps(1)] .
  from child.prems(2) show ?case
  proof (cases rule: represents.cases)
    case root
    with pc show ?thesis by simp
  next
    case (child p' a' s'')
    with child.hyps(1,2) have e: "p' = p" "a' = a" by simp_all
    have "p < used h" using pc child.prems(1) by simp
    from child.IH[OF this] child(4) e have "s = s''" by simp
    with child(1) e show ?thesis by simp
  qed
qed

lemma descent_represents:
  assumes t: "tree_inv h"
  shows "descent h board bot_identity n s n' s' \<Longrightarrow> n < used h \<Longrightarrow>
         represents board s0 h n s \<Longrightarrow> represents board s0 h n' s'"
proof (induction rule: descent.induct)
  case (stop n s)
  then show ?case by simp
next
  case (step n s c a n' s')
  from step.hyps(3) obtain a' where m: "(a', c) \<in> set (child_nodes (cells h n))"
    unfolding best_child_def by auto
  from tree_invD(4)[OF t step.prems(1) m] have k: "c < used h" "parent (cells h c) = Some n"
    by simp_all
  have "represents board s0 h c (next_state board s a)"
    using k(2) step.hyps(4) step.prems(2) by (rule represents.child)
  from step.IH[OF k(1) this] show ?case .
qed

lemma actions_inv_root:
  "distinct (legal_actions board s0) \<Longrightarrow> actions_inv board s0 (root_heap board s0)"
  unfolding actions_inv_def
  by (auto simp: root_heap_cells MCTSNode_init_def partitioned_def intro: represents.root)

lemma actions_inv_cong:
  assumes t: "tree_inv h" and a: "actions_inv board s0 h" and u: "used h' = used h"
    and f: "\<And>x. parent (cells h' x) = parent (cells h x) \<and>
                 parent_action (cells h' x) = parent_action (cells h x) \<and>
                 child_nodes (cells h' x) = child_nodes (cells h x) \<and>
                 untried_actions (cells h' x) = untried_actions (cells h x)"
  shows "actions_inv board s0 h'"
  unfolding actions_inv_def
proof (intro allI impI)
  fix r assume "r < used h'"
  then have r: "r < used h" using u by simp
  with a obtain s where s: "represents board s0 h r s" "partitioned board (cells h r) s"
    unfolding actions_inv_def by blast
  have "represents board s0 h' r s"
    using represents_mono[OF t _ s(1) r] f by blast
  moreover have "partitioned board (cells h' r) s"
    using s(2) f[of r] by (simp add: partitioned_def)
  ultimately show "\<exists>s. represents board s0 h' r s \<and> partitioned board (cells h' r) s" by blast
qed

lemma actions_inv_expand:
  assumes t: "tree_inv h" and a: "actions_inv board s0 h"
    and d: "\<forall>s. distinct (legal_actions board s)"
    and n: "n < used h" and rn: "represents board s0 h n s"
    and ex: "expand_leaf h board n s = Inr (h1, c, s1)"
  shows "actions_inv board s0 h1"
proof -
  have ne: "untried_actions (cells h n) \<noteq> []"
    using ex expand_leaf_empty[of h n board s] by auto
  let ?a = "last (untried_actions (cells h n))"
  from expand_leaf_result[OF ne, of board s] n ex
  have u: "used h1 = Suc (used h)"
    and cn: "cells h1 n = (cells h n)
             \<lparr>untried_actions := butlast (untried_actions (cells h n)),
              child_nodes := dict_set ?a (used h) (child_nodes (cells h n))\<rparr>"
    and cu: "cells h1 (used h) =
             MCTSNode_init (Some n) (Some ?a) (legal_actions board (next_state board s ?a))"
    and co: "\<And>r. r \<noteq> n \<Longrightarrow> r \<noteq> used h \<Longrightarrow> cells h1 r = cells h r"
    by auto
  have par: "parent (cells h1 x) = parent (cells h x) \<and>
             parent_action (cells h1 x) = parent_action (cells h x)" if "x < used h" for x
    using that cn co[of x] by (cases "x = n") auto
  have mono: "represents board s0 h1 r s'" if "represents board s0 h r s'" "r < used h" for r s'
    using represents_mono[OF t par that] .
  show ?thesis
    unfolding actions_inv_def
  proof (intro allI impI)
    fix r assume "r < used h1"
    then consider "r = used h" | "r = n" | "r \<noteq> n" "r < used h" using u by fastforce
    then show "\<exists>s. represents board s0 h1 r s \<and> partitioned board (cells h1 r) s"
    proof cases
      case 1
      have "represents board s0 h1 (used h) (next_state board s ?a)"
      proof (rule represents.child)
        show "parent (cells h1 (used h)) = Some n" using cu by (simp add: MCTSNode_init_def)
        show "parent_action (cells h1 (used h)) = Some ?a" using cu by (simp add: MCTSNode_init_def)
        show "represents board s0 h1 n s" using mono[OF rn n] .
      qed
      moreover have "partitioned board (cells h1 (used h)) (next_state board s ?a)"
        using cu d by (simp add: partitioned_def MCTSNode_init_def)
      ultimately show ?thesis using 1 by blast
    next
      case 2
      from a n obtain s' where s': "represents board s0 h n s'" "partitioned board (cells h n) s'"
        unfolding actions_inv_def by blast
      let ?u = "untried_actions (cells h n)"
      let ?cs = "child_nodes (cells h n)"
      have ub: "?u = butlast ?u @ [?a]" using ne by simp
      from s'(2) have dd: "distinct (?u @ map fst ?cs)"
        and ss: "set ?u \<union> fst ` set ?cs = set (legal_actions board s')"
        and ll: "length ?u + length ?cs = length (legal_actions board s')"
        unfolding partitioned_def by simp_all
      have "?a \<in> set ?u" using ne by simp
      with dd have new: "?a \<notin> fst ` set ?cs" by auto
      then have ds: "dict_set ?a (used h) ?cs = ?cs @ [(?a, used h)]" by (rule dict_set_new)
      have "distinct (butlast ?u @ [?a] @ map fst ?cs)" using dd ub by (metis append.assoc)
      then have d1: "distinct (butlast ?u @ map fst (?cs @ [(?a, used h)]))" by auto
      have "set (butlast ?u @ [?a]) \<union> fst ` set ?cs = set (legal_actions board s')"
        using ss ub by metis
      then have s1: "set (butlast ?u) \<union> fst ` set (?cs @ [(?a, used h)]) =
                     set (legal_actions board s')" by auto
      have "length (butlast ?u) + 1 + length ?cs = length (legal_actions board s')"
        using ll ne by simp
      then have l1: "length (butlast ?u) + length (?cs @ [(?a, used h)]) =
                     length (legal_actions board s')" by simp
      have "partitioned board (cells h1 n) s'"
        unfolding partitioned_def cn using d1 s1 l1 by (simp add: ds)
      with mono[OF s'(1) n] 2 show ?thesis by blast
    next
      case 3
      from a 3(2) obtain s' where s': "represents board s0 h r s'" "partitioned board (cells h r) s'"
        unfolding actions_inv_def by blast
      have "cells h1 r = cells h r" using co[of r] 3 by simp
      with mono[OF s'(1) 3(2)] s'(2) show ?thesis by auto
    qed
  qed
qed

lemma think_iter_result:
  assumes tr: "traverse_nodes h board root_node current_state bot_identity = Some (Inr (n, s))"
    and ex: "expand_if_untried h board n s = Inr (h1, n1, s1)"
    and ti: "think_iter board rnd current_state bot_identity root_node (h, k) = Some (Inr (h', k'))"
  shows "\<exists>won. backpropagate h1 (Some n1) won = Some h'"
proof -
  note u = think_iter_unfold[OF tr ex, of rnd k]
  show ?thesis
  proof (cases "rollout board rnd k s1")
    case None
    with ti u show ?thesis by simp
  next
    case (Some ro)
    show ?thesis
    proof (cases ro)
      case (Inl e)
      with Some ti u show ?thesis by simp
    next
      case (Inr fk)
      obtain fs k2 where fk: "fk = (fs, k2)" by (cases fk)
      show ?thesis
      proof (cases "is_win board fs bot_identity")
        case (Inl e)
        with Some Inr fk ti u show ?thesis by simp
      next
        case w: (Inr won)
        show ?thesis
        proof (cases "backpropagate h1 (Some n1) won")
          case None
          with Some Inr fk w ti u show ?thesis by simp
        next
          case bs: (Some h2)
          with Some Inr fk w ti u have "h2 = h'" by simp
          with bs show ?thesis by blast
        qed
      qed
    qed
  qed
qed

lemma think_iter_actions:
  assumes t: "tree_inv h" and c: "counters_inv h" and a: "actions_inv board s0 h"
    and d: "\<forall>s. distinct (legal_actions board s)"
    and ti: "think_iter board rnd s0 bot_identity 0 (h, k) = Some (Inr (h', k'))"
  shows "actions_inv board s0 h'"
proof -
  have r0: "0 < used h" using tree_invD(1)[OF t] .
  from traverse_descent[OF t c r0, of board s0 bot_identity] obtain n s where
    tr: "traverse_nodes h board 0 s0 bot_identity = Some (Inr (n, s))"
    and de: "descent h board bot_identity 0 s0 n s" and n: "n < used h"
    by blast
  have rn: "represents board s0 h n s"
    using descent_represents[OF t de r0 represents.root] .
  have "\<exists>h1 n1 s1. expand_if_untried h board n s = Inr (h1, n1, s1) \<and> tree_inv h1 \<and>
          counters_inv h1 \<and> actions_inv board s0 h1 \<and> n1 < used h1"
  proof (cases "untried_actions (cells h n) = []")
    case True
    then show ?thesis using t c a n by (simp add: expand_if_untried_def)
  next
    case False
    have ne: "n \<noteq> used h" using n by simp
    from expand_leaf_result[OF False ne, of board s] obtain h1 where
      h1: "expand_leaf h board n s =
             Inr (h1, used h, next_state board s (last (untried_actions (cells h n))))"
          "used h1 = Suc (used h)"
      by blast
    have "tree_inv h1" using t n h1(1) by (rule tree_inv_expand)
    moreover have "counters_inv h1" using c t n h1(1) by (rule counters_inv_expand)
    moreover have "actions_inv board s0 h1" using t a d n rn h1(1) by (rule actions_inv_expand)
    ultimately show ?thesis using False h1 by (simp add: expand_if_untried_def)
  qed
  then obtain h1 n1 s1 where
    ex: "expand_if_untried h board n s = Inr (h1, n1, s1)" and t1: "tree_inv h1"
    and c1: "counters_inv h1" and a1: "actions_inv board s0 h1" and n1: "n1 < used h1"
    by blast
  from think_iter_result[OF tr ex ti] obtain won where
    b: "backpropagate h1 (Some n1) won = Some h'" by blast
  from backpropagate_inv[OF t1 c1 n1, of won] b
  have u: "used h' = used h1"
    and f: "\<And>x. parent (cells h' x) = parent (cells h1 x) \<and>
                 parent_action (cells h' x) = parent_action (cells h1 x) \<and>
                 child_nodes (cells h' x) = child_nodes (cells h1 x) \<and>
                 untried_actions (cells h' x) = untried_actions (cells h1 x)"
    by auto
  show ?thesis using t1 a1 u f by (rule actions_inv_cong)
qed

lemma think_loop_actions:
  assumes d: "\<forall>s. distinct (legal_actions board s)"
  shows "tree_inv h \<Longrightarrow> counters_inv h \<Longrightarrow> actions_inv board s0 h \<Longrightarrow>
         think_loop n board rnd s0 bot_identity 0 (h, k) = Some (Inr (h', k')) \<Longrightarrow>
         actions_inv board s0 h'"
proof (induction n arbitrary: h k)
  case 0
  then show ?case by simp
next
  case (Suc n)
  show ?case
  proof (cases "think_iter board rnd s0 bot_identity 0 (h, k)")
    case None
    with Suc.prems(4) show ?thesis by simp
  next
    case (Some res)
    show ?thesis
    proof (cases res)
      case (Inl e)
      with Some Suc.prems(4) show ?thesis by simp
    next
      case (Inr hk)
      obtain h1 k1 where hk: "hk = (h1, k1)" by (cases hk)
      have ti: "think_iter board rnd s0 bot_identity 0 (h, k) = Some (Inr (h1, k1))"
        using Some Inr hk by simp
      from think_iter_cases[OF Suc.prems(1,2), of board rnd s0 bot_identity k] ti
      have p: "progress 1 h h1" by simp
      have a1: "actions_inv board s0 h1"
        using think_iter_actions[OF Suc.prems(1,2,3) d ti] .
      have "think_loop n board rnd s0 bot_identity 0 (h1, k1) = Some (Inr (h', k'))"
        using Suc.prems(4) ti by simp
      from Suc.IH[OF progressD(1,2)[OF p] a1 this] show ?thesis .
    qed
  qed
qed

lemma nim_distinct: "\<forall>s. distinct (legal_actions nim s)"
  by (simp add: nim_def)

text \<open>
  C9. Assume the engine's lists of legal actions have no repetition (they are sets). After
  any number of passes of the driver's loop, every node of the tree stands for exactly one
  state, its untried actions and the keys of its children are disjoint and without
  repetition, their union is the set of legal actions at that state (the list the node was
  created with), and their numbers add up to the number of those legal actions. Creation
  establishes this: a new node has the given legal actions as untried actions and no
  children. Expansion preserves it: it moves exactly the last untried action into the keys
  of the children.
\<close>

theorem untried_and_children_partition:
  assumes "\<forall>s. distinct (legal_actions board s)"
  shows "(\<forall>h root_node. search n board rnd s0 = Some (Inr (h, root_node)) \<longrightarrow>
           (\<forall>r < used h. \<exists>s.
              represents board s0 h r s \<and>
              (\<forall>s'. represents board s0 h r s' \<longrightarrow> s' = s) \<and>
              set (untried_actions (cells h r)) \<inter> fst ` set (child_nodes (cells h r)) = {} \<and>
              distinct (untried_actions (cells h r)) \<and>
              distinct (map fst (child_nodes (cells h r))) \<and>
              set (untried_actions (cells h r)) \<union> fst ` set (child_nodes (cells h r)) =
                set (legal_actions board s) \<and>
              length (untried_actions (cells h r)) + length (child_nodes (cells h r)) =
                length (legal_actions board s))) \<and>
         (\<forall>p pa. untried_actions (MCTSNode_init p pa (legal_actions board s0)) =
                    legal_actions board s0 \<and>
                 child_nodes (MCTSNode_init p pa (legal_actions board s0)) = []) \<and>
         (\<forall>h node state h' c s'.
            node < used h \<and> expand_leaf h board node state = Inr (h', c, s') \<and>
            set (untried_actions (cells h node)) \<inter> fst ` set (child_nodes (cells h node)) = {}
            \<longrightarrow>
            untried_actions (cells h node) =
              untried_actions (cells h' node) @ [last (untried_actions (cells h node))] \<and>
            map fst (child_nodes (cells h' node)) =
              map fst (child_nodes (cells h node)) @ [last (untried_actions (cells h node))])"
proof (intro conjI allI impI)
  fix h root_node r
  assume s: "search n board rnd s0 = Some (Inr (h, root_node))" and r: "r < used h"
  from search_progress[OF s] obtain k where
    p: "progress n (root_heap board s0) h"
    and tl: "think_loop n board rnd s0 (current_player board s0) 0 (root_heap board s0, 0) =
              Some (Inr (h, k))" by blast
  have ai: "actions_inv board s0 h"
    using think_loop_actions[OF assms root_heap_inv actions_inv_root tl] assms by blast
  with r obtain s where s: "represents board s0 h r s" "partitioned board (cells h r) s"
    unfolding actions_inv_def by blast
  have un: "\<forall>s'. represents board s0 h r s' \<longrightarrow> s' = s"
    using represents_unique[OF progressD(1)[OF p] s(1) r] by blast
  from s(2) have dd: "distinct (untried_actions (cells h r) @ map fst (child_nodes (cells h r)))"
    and ss: "set (untried_actions (cells h r)) \<union> fst ` set (child_nodes (cells h r)) =
       set (legal_actions board s)"
    and ll: "length (untried_actions (cells h r)) + length (child_nodes (cells h r)) =
       length (legal_actions board s)"
    unfolding partitioned_def by simp_all
  from dd have d1: "distinct (untried_actions (cells h r))"
    and d2: "distinct (map fst (child_nodes (cells h r)))"
    and d3: "set (untried_actions (cells h r)) \<inter> fst ` set (child_nodes (cells h r)) = {}"
    by simp_all
  show "\<exists>s.
              represents board s0 h r s \<and>
              (\<forall>s'. represents board s0 h r s' \<longrightarrow> s' = s) \<and>
              set (untried_actions (cells h r)) \<inter> fst ` set (child_nodes (cells h r)) = {} \<and>
              distinct (untried_actions (cells h r)) \<and>
              distinct (map fst (child_nodes (cells h r))) \<and>
              set (untried_actions (cells h r)) \<union> fst ` set (child_nodes (cells h r)) =
                set (legal_actions board s) \<and>
              length (untried_actions (cells h r)) + length (child_nodes (cells h r)) =
                length (legal_actions board s)"
    using s(1) un d3 d1 d2 ss ll by (intro exI[of _ s] conjI)
next
  fix p pa
  show "untried_actions (MCTSNode_init p pa (legal_actions board s0)) = legal_actions board s0"
    "child_nodes (MCTSNode_init p pa (legal_actions board s0)) = []"
    by (simp_all add: MCTSNode_init_def)
next
  fix h node state h' c s'
  assume a: "node < used h \<and> expand_leaf h board node state = Inr (h', c, s') \<and>
            set (untried_actions (cells h node)) \<inter> fst ` set (child_nodes (cells h node)) = {}"
  then have ne: "untried_actions (cells h node) \<noteq> []"
    using expand_leaf_empty[of h node board state] by auto
  let ?a = "last (untried_actions (cells h node))"
  from expand_leaf_result[OF ne, of board state] a
  have cn: "cells h' node = (cells h node)
             \<lparr>untried_actions := butlast (untried_actions (cells h node)),
              child_nodes := dict_set ?a (used h) (child_nodes (cells h node))\<rparr>"
    by auto
  have "?a \<in> set (untried_actions (cells h node))" using ne by simp
  with a have "?a \<notin> fst ` set (child_nodes (cells h node))" by blast
  then have ds: "dict_set ?a (used h) (child_nodes (cells h node)) =
                 child_nodes (cells h node) @ [(?a, used h)]" by (rule dict_set_new)
  show "untried_actions (cells h node) = untried_actions (cells h' node) @ [?a]"
    using cn ne by simp
  show "map fst (child_nodes (cells h' node)) = map fst (child_nodes (cells h node)) @ [?a]"
    using cn ds by simp
qed

theorem untried_and_children_partition_witness:
  "(\<forall>s. distinct (legal_actions nim s)) \<and>
   (\<exists>h root_node s. search 3 nim (\<lambda>_. 0) (2, 1) = Some (Inr (h, root_node)) \<and>
      0 < used h \<and> represents nim (2, 1) h 0 s \<and>
      set (untried_actions (cells h 0)) \<inter> fst ` set (child_nodes (cells h 0)) = {} \<and>
      set (untried_actions (cells h 0)) \<union> fst ` set (child_nodes (cells h 0)) =
        set (legal_actions nim s) \<and>
      length (untried_actions (cells h 0)) + length (child_nodes (cells h 0)) =
        length (legal_actions nim s))"
proof -
  have o: "outcome_defined nim (current_player nim (2, 1))"
    using nim_outcome by (simp add: nim_def)
  from search_total[OF nim_wf nim_ended nim_points, of 3 "\<lambda>_. 0" "(2, 1)"] o obtain h where
    h: "search 3 nim (\<lambda>_. 0) (2, 1) = Some (Inr (h, 0))" by blast
  have u: "0 < used h" using search_progress[OF h] progressD(1) tree_invD(1) by blast
  note t = untried_and_children_partition [OF nim_distinct, of 3 "\<lambda>_. 0" "(2, 1)"]
  from t have "\<forall>r < used h. \<exists>s.
              represents nim (2, 1) h r s \<and>
              (\<forall>s'. represents nim (2, 1) h r s' \<longrightarrow> s' = s) \<and>
              set (untried_actions (cells h r)) \<inter> fst ` set (child_nodes (cells h r)) = {} \<and>
              distinct (untried_actions (cells h r)) \<and>
              distinct (map fst (child_nodes (cells h r))) \<and>
              set (untried_actions (cells h r)) \<union> fst ` set (child_nodes (cells h r)) =
                set (legal_actions nim s) \<and>
              length (untried_actions (cells h r)) + length (child_nodes (cells h r)) =
                length (legal_actions nim s)"
    using h by (elim conjE allE[of _ h] allE[of _ 0]) (erule impE, assumption+)
  from this[rule_format, OF u] obtain s where
    "represents nim (2, 1) h 0 s"
    "set (untried_actions (cells h 0)) \<inter> fst ` set (child_nodes (cells h 0)) = {}"
    "set (untried_actions (cells h 0)) \<union> fst ` set (child_nodes (cells h 0)) =
        set (legal_actions nim s)"
    "length (untried_actions (cells h 0)) + length (child_nodes (cells h 0)) =
        length (legal_actions nim s)"
    by (elim exE conjE)
  with h u nim_distinct show ?thesis by (intro conjI exI[of _ h] exI[of _ 0] exI[of _ s])
qed

subsection \<open>Tree descent with the platform's arithmetic\<close>

text \<open>
  What \<open>ucb_float\<close> returns, as far as it does not depend on the arithmetic: infinity at
  a node never visited, and at a visited node with a parent the sum of the win rate
  (flipped when the opponent flag is set) and the exploration constant times the square
  root of the logarithm of the parent's visits over the node's visits, each operation
  being the platform's.
\<close>

lemma ucb_float_unvisited:
  "visits (cells h node) = 0 \<Longrightarrow> ucb_float fl h node is_opponent = Inr (inf_float fl)"
  by (simp add: ucb_float_def)

lemma ucb_float_visited:
  assumes "visits (cells h node) \<noteq> 0" "parent (cells h node) = Some p"
    "truediv fl (wins (cells h node)) (visits (cells h node)) = Inr q"
    "log_int fl (visits (cells h p)) = Inr l"
    "div_by_int fl l (visits (cells h node)) = Inr d" "sqrt_float fl d = Inr r"
  shows "ucb_float fl h node is_opponent =
           Inr (add_float fl (if is_opponent then one_minus fl q else q)
                  (mul_float fl (explore_float fl) r))"
  using assms by (simp add: ucb_float_def)

lemma is_first_max_snoc_new_on:
  assumes wo: "weak_order_on S gt" and ks: "\<And>x k. key x = Inr k \<Longrightarrow> k \<in> S"
    and fm: "is_first_max key gt ys i" and kb: "key (ys ! i) = Inr bk" and kx: "key x = Inr k"
    and g: "gt k bk"
  shows "is_first_max key gt (ys @ [x]) (length ys)"
proof -
  have kS: "k \<in> S" and bS: "bk \<in> S" using ks kx kb by blast+
  have irr: "\<not> gt k k" using wo kS unfolding weak_order_on_def by blast
  have a: "\<not> gt bk k" using wo g kS bS unfolding weak_order_on_def by blast
  have b: "\<exists>kj. key (ys ! j) = Inr kj \<and> \<not> gt kj k \<and> gt k kj" if "j < length ys" for j
  proof -
    from fm kb that obtain kj where kj: "key (ys ! j) = Inr kj" "\<not> gt kj bk"
      unfolding is_first_max_def by auto
    have jS: "kj \<in> S" using ks kj(1) by blast
    have "\<not> gt kj k" using kj(2) a wo jS bS kS unfolding weak_order_on_def by blast
    moreover have "gt k kj" using kj(2) g wo jS bS kS unfolding weak_order_on_def by blast
    ultimately show ?thesis using kj(1) by blast
  qed
  show ?thesis
    unfolding is_first_max_def using kx irr b
    by (auto simp: nth_append less_Suc_eq)
qed

lemma max_loop_first_on:
  assumes wo: "weak_order_on S gt" and ks: "\<And>x k. key x = Inr k \<Longrightarrow> k \<in> S"
  shows "is_first_max key gt ys i \<Longrightarrow> best = ys ! i \<Longrightarrow> key best = Inr bk \<Longrightarrow>
         max_loop key gt best bk xs = Inr c \<Longrightarrow>
         \<exists>i'. is_first_max key gt (ys @ xs) i' \<and> c = (ys @ xs) ! i'"
proof (induction xs arbitrary: ys i best bk)
  case Nil
  then show ?case by auto
next
  case (Cons x xs)
  from Cons.prems(4) obtain k where k: "key x = Inr k"
    by (cases "key x") auto
  show ?case
  proof (cases "gt k bk")
    case True
    have fm: "is_first_max key gt (ys @ [x]) (length ys)"
      using is_first_max_snoc_new_on[OF wo ks Cons.prems(1) _ k True] Cons.prems(2,3) by simp
    have "max_loop key gt x k xs = Inr c" using Cons.prems(4) k True by simp
    from Cons.IH[OF fm _ _ this] k show ?thesis by simp
  next
    case False
    have fm: "is_first_max key gt (ys @ [x]) i"
      using is_first_max_snoc_keep[OF Cons.prems(1) _ k False] Cons.prems(2,3) by simp
    have i: "i < length ys" using Cons.prems(1) unfolding is_first_max_def by simp
    have "max_loop key gt best bk xs = Inr c" using Cons.prems(4) k False by simp
    from Cons.IH[OF fm _ _ this] Cons.prems(2,3) i show ?thesis by (simp add: nth_append)
  qed
qed

lemma py_max_first_on:
  assumes wo: "weak_order_on S gt" and ks: "\<And>x k. key x = Inr k \<Longrightarrow> k \<in> S"
    and m: "py_max key gt xs = Inr c"
  shows "\<exists>i. is_first_max key gt xs i \<and> c = xs ! i"
proof (cases xs)
  case Nil
  with m show ?thesis by (simp add: py_max_def)
next
  case (Cons x rest)
  with m obtain k where k: "key x = Inr k" "max_loop key gt x k rest = Inr c"
    by (cases "key x") (auto simp: py_max_def)
  have "k \<in> S" using ks k(1) by blast
  then have irr: "\<not> gt k k" using wo unfolding weak_order_on_def by blast
  have "is_first_max key gt [x] 0"
    unfolding is_first_max_def using k(1) irr by simp
  from max_loop_first_on[OF wo ks this _ _ k(2)] k(1) Cons show ?thesis by simp
qed

lemma max_loop_error:
  "max_loop key gt best bk xs = Inl e \<Longrightarrow> \<exists>x \<in> set xs. key x = Inl e"
proof (induction xs arbitrary: best bk)
  case Nil
  then show ?case by simp
next
  case (Cons x xs)
  show ?case
  proof (cases "key x")
    case (Inl e')
    with Cons.prems show ?thesis by simp
  next
    case (Inr k)
    with Cons.prems Cons.IH show ?thesis by (auto split: if_splits)
  qed
qed

lemma py_max_error:
  assumes "py_max key gt xs = Inl e" "xs \<noteq> []"
  shows "\<exists>x \<in> set xs. key x = Inl e"
proof -
  from assms(2) obtain x rest where xs: "xs = x # rest" by (cases xs) auto
  show ?thesis
  proof (cases "key x")
    case (Inl e')
    with assms(1) xs show ?thesis by (simp add: py_max_def)
  next
    case (Inr k)
    with assms(1) xs have "max_loop key gt x k rest = Inl e" by (simp add: py_max_def)
    from max_loop_error[OF this] xs show ?thesis by auto
  qed
qed

lemma traverse_float_stop:
  "untried_actions (cells h n) \<noteq> [] \<or> child_nodes (cells h n) = [] \<Longrightarrow>
   traverse_nodes_float fl nn h board n s bot_identity = Some (Inr (n, s))"
  by (subst traverse_nodes_float.simps) auto

lemma traverse_float_raise:
  assumes "untried_actions (cells h n) = []" "child_nodes (cells h n) \<noteq> []"
    "py_max (\<lambda>child. ucb_float fl h child (bot_identity \<noteq> current_player board s)) (gt_float fl)
       (map snd (child_nodes (cells h n))) = Inl e"
  shows "traverse_nodes_float fl nn h board n s bot_identity = Some (Inl e)"
  using assms by (subst traverse_nodes_float.simps) simp

lemma traverse_float_step:
  assumes "untried_actions (cells h n) = []" "child_nodes (cells h n) \<noteq> []"
    "py_max (\<lambda>child. ucb_float fl h child (bot_identity \<noteq> current_player board s)) (gt_float fl)
       (map snd (child_nodes (cells h n))) = Inr c"
    "parent_action (cells h c) = Some a"
  shows "traverse_nodes_float fl nn h board n s bot_identity =
         traverse_nodes_float fl nn h board c (next_state board s a) bot_identity"
  using assms by (subst traverse_nodes_float.simps) simp

lemma py_max_best_child_float:
  assumes wo: "weak_order_on (scores fl h) (gt_float fl)"
    and m: "py_max (\<lambda>child. ucb_float fl h child opp) (gt_float fl)
              (map snd (child_nodes (cells h n))) = Inr c"
  shows "best_child_float fl h opp n c"
proof -
  let ?xs = "map snd (child_nodes (cells h n))"
  have "\<exists>i. is_first_max (\<lambda>child. ucb_float fl h child opp) (gt_float fl) ?xs i \<and>
            c = ?xs ! i"
  proof (rule py_max_first_on[OF wo _ m])
    fix x k assume "ucb_float fl h x opp = Inr k"
    then show "k \<in> scores fl h" unfolding scores_def by blast
  qed
  then obtain i where
    i: "is_first_max (\<lambda>child. ucb_float fl h child opp) (gt_float fl) ?xs i" "c = ?xs ! i"
    by blast
  from i(1) obtain ki where ki: "i < length ?xs" "ucb_float fl h (?xs ! i) opp = Inr ki"
    "\<forall>j < length ?xs. \<exists>kj. ucb_float fl h (?xs ! j) opp = Inr kj \<and> \<not> gt_float fl kj ki"
    unfolding is_first_max_def by blast
  have "c \<in> set ?xs" using ki(1) i(2) by simp
  moreover have "\<exists>sc'. ucb_float fl h c' opp = Inr sc' \<and> \<not> gt_float fl sc' ki"
    if "c' \<in> set ?xs" for c'
  proof -
    from that obtain j where j: "j < length ?xs" "?xs ! j = c'"
      unfolding in_set_conv_nth by blast
    from ki(3) j(1) have "\<exists>kj. ucb_float fl h (?xs ! j) opp = Inr kj \<and> \<not> gt_float fl kj ki"
      by blast
    then show ?thesis unfolding j(2) .
  qed
  ultimately show ?thesis unfolding best_child_float_def using ki(2) i(2) by auto
qed

lemma traverse_float_descent:
  assumes t: "tree_inv h" and wo: "weak_order_on (scores fl h) (gt_float fl)"
  shows "node < used h \<Longrightarrow>
         \<exists>res. traverse_nodes_float fl nn h board node state bot_identity = Some res \<and>
               descent_float fl h board bot_identity node state res \<and>
               (\<forall>n' s'. res = Inr (n', s') \<longrightarrow>
                  (untried_actions (cells h n') \<noteq> [] \<or> child_nodes (cells h n') = []) \<and>
                  n' < used h)"
proof (induction "used h - node" arbitrary: node state rule: less_induct)
  case less
  show ?case
  proof (cases "untried_actions (cells h node) \<noteq> [] \<or> child_nodes (cells h node) = []")
    case True
    have "traverse_nodes_float fl nn h board node state bot_identity = Some (Inr (node, state))"
      using True by (rule traverse_float_stop)
    moreover have "descent_float fl h board bot_identity node state (Inr (node, state))"
      using True by (rule descent_float.stop)
    ultimately show ?thesis using less.prems True by auto
  next
    case False
    then have un: "untried_actions (cells h node) = []" and ch: "child_nodes (cells h node) \<noteq> []"
      by simp_all
    let ?opp = "bot_identity \<noteq> current_player board state"
    let ?xs = "map snd (child_nodes (cells h node))"
    have kids: "node < x \<and> x < used h \<and> (\<exists>a. parent_action (cells h x) = Some a)"
      if "x \<in> set ?xs" for x
      using that tree_invD(4)[OF t less.prems] by fastforce
    have ne: "?xs \<noteq> []" using ch by simp
    show ?thesis
    proof (cases "py_max (\<lambda>child. ucb_float fl h child ?opp) (gt_float fl) ?xs")
      case (Inl e)
      from py_max_error[OF Inl ne] obtain c where
        c: "c \<in> set ?xs" "ucb_float fl h c ?opp = Inl e" by blast
      have "traverse_nodes_float fl nn h board node state bot_identity = Some (Inl e)"
        using un ch Inl by (rule traverse_float_raise)
      moreover have "descent_float fl h board bot_identity node state (Inl e)"
        using descent_float.raise[OF un ch _ c(2)] c(1) by simp
      ultimately show ?thesis by auto
    next
      case (Inr c)
      have bc: "best_child_float fl h ?opp node c" using wo Inr by (rule py_max_best_child_float)
      then have "c \<in> set ?xs" unfolding best_child_float_def by simp
      from kids[OF this] obtain a where
        k: "node < c" "c < used h" "parent_action (cells h c) = Some a" by blast
      have st: "traverse_nodes_float fl nn h board node state bot_identity =
                traverse_nodes_float fl nn h board c (next_state board state a) bot_identity"
        using un ch Inr k(3) by (rule traverse_float_step)
      have "used h - c < used h - node" using k(1,2) by simp
      from less.hyps[OF this k(2), of "next_state board state a"] obtain res where
        r: "traverse_nodes_float fl nn h board c (next_state board state a) bot_identity = Some res"
           "descent_float fl h board bot_identity c (next_state board state a) res"
           "\<forall>n' s'. res = Inr (n', s') \<longrightarrow>
                  (untried_actions (cells h n') \<noteq> [] \<or> child_nodes (cells h n') = []) \<and>
                  n' < used h"
        by blast
      have "descent_float fl h board bot_identity node state res"
        using un ch bc k(3) r(2) by (rule descent_float.step)
      with r(1,3) st show ?thesis by simp
    qed
  qed
qed

lemma descent_float_no_raise:
  assumes ok: "\<And>n c opp. c \<in> snd ` set (child_nodes (cells h n)) \<Longrightarrow>
                 \<exists>sc. ucb_float fl h c opp = Inr sc"
  shows "descent_float fl h board bot_identity n s res \<Longrightarrow> \<exists>n' s'. res = Inr (n', s')"
proof (induction rule: descent_float.induct)
  case (stop n s)
  then show ?case by simp
next
  case (raise n c s e)
  with ok[OF raise.hyps(3), of "bot_identity \<noteq> current_player board s"] show ?case by simp
next
  case (step n s c a res)
  then show ?case by simp
qed

lemma weak_order_on_weak_order: "weak_order gt \<Longrightarrow> weak_order_on S gt"
  unfolding weak_order_def weak_order_on_def by blast

lemma ucb_ideal: "ucb h node is_opponent = ucb_float ideal_float h node is_opponent"
proof (cases "visits (cells h node) = 0")
  case True
  then show ?thesis by (simp add: ucb_def ucb_float_def ideal_float_def)
next
  case False
  show ?thesis
  proof (cases "parent (cells h node)")
    case None
    with False show ?thesis by (simp add: ucb_def ucb_float_def ideal_float_def Let_def)
  next
    case (Some p)
    with False show ?thesis
      by (simp add: ucb_def ucb_float_def ideal_float_def Let_def)
  qed
qed

lemma gt_ideal: "gt_float ideal_float = score_gt"
  by (simp add: ideal_float_def)

lemma traverse_ideal_1:
  "traverse_nodes h board n s b = Some y \<Longrightarrow>
   traverse_nodes_float ideal_float (\<lambda>_. Inl TypeError) h board n s b = Some y"
proof (erule traverse_nodes.raw_induct[rotated], goal_cases)
  case (1 f h board n s b y)
  show ?case
  proof (cases "untried_actions (cells h n) = [] \<and> child_nodes (cells h n) \<noteq> []")
    case False
    with 1(2) show ?thesis by (subst traverse_nodes_float.simps) auto
  next
    case True
    show ?thesis
    proof (cases "py_max (\<lambda>child. ucb h child (b \<noteq> current_player board s)) score_gt
                    (map snd (child_nodes (cells h n)))")
      case (Inl e)
      with True 1(2) show ?thesis
        by (subst traverse_nodes_float.simps) (simp add: ucb_ideal[symmetric] gt_ideal)
    next
      case (Inr c)
      show ?thesis
      proof (cases "parent_action (cells h c)")
        case None
        with True Inr 1(2) show ?thesis
          by (subst traverse_nodes_float.simps) (simp add: ucb_ideal[symmetric] gt_ideal)
      next
        case (Some a)
        with True Inr 1(2) have "f h board c (next_state board s a) b = Some y" by simp
        from 1(1)[OF this] True Inr Some show ?thesis
          by (subst traverse_nodes_float.simps) (simp add: ucb_ideal[symmetric] gt_ideal)
      qed
    qed
  qed
qed

lemma traverse_ideal_2:
  "traverse_nodes_float fl nn h board n s b = Some y \<Longrightarrow>
   fl = ideal_float \<longrightarrow> nn = (\<lambda>_. Inl TypeError) \<longrightarrow> traverse_nodes h board n s b = Some y"
proof (erule traverse_nodes_float.raw_induct[rotated], goal_cases)
  case (1 f fl nn h board n s b y)
  show ?case
  proof (intro impI)
    assume fl: "fl = ideal_float" and nn: "nn = (\<lambda>_. Inl TypeError)"
    show "traverse_nodes h board n s b = Some y"
    proof (cases "untried_actions (cells h n) = [] \<and> child_nodes (cells h n) \<noteq> []")
      case False
      with 1(2) show ?thesis by (subst traverse_nodes.simps) auto
    next
      case True
      show ?thesis
      proof (cases "py_max (\<lambda>child. ucb h child (b \<noteq> current_player board s)) score_gt
                      (map snd (child_nodes (cells h n)))")
        case (Inl e)
        with True 1(2) show ?thesis
          by (subst traverse_nodes.simps) (simp add: fl ucb_ideal[symmetric] gt_ideal)
      next
        case (Inr c)
        show ?thesis
        proof (cases "parent_action (cells h c)")
          case None
          with True Inr 1(2) show ?thesis
            by (subst traverse_nodes.simps) (simp add: fl nn ucb_ideal[symmetric] gt_ideal)
        next
          case (Some a)
          with True Inr 1(2) have "f fl nn h board c (next_state board s a) b = Some y"
            by (simp add: fl ucb_ideal[symmetric] gt_ideal)
          from 1(1)[OF this] fl nn True Inr Some show ?thesis
            by (subst traverse_nodes.simps) simp
        qed
      qed
    qed
  qed
qed

lemma traverse_ideal:
  "traverse_nodes h board n s b =
   traverse_nodes_float ideal_float (\<lambda>_. Inl TypeError) h board n s b"
proof (cases "traverse_nodes h board n s b")
  case None
  show ?thesis
  proof (cases "traverse_nodes_float ideal_float (\<lambda>_. Inl TypeError) h board n s b")
    case n2: None
    with None show ?thesis by simp
  next
    case (Some y)
    from traverse_ideal_2[OF Some] None show ?thesis by simp
  qed
next
  case (Some y)
  from traverse_ideal_1[OF Some] Some show ?thesis by simp
qed

text \<open>
  C2. For every floating-point arithmetic whose comparison orders the scores of the store,
  on a tree in the store \<open>traverse_nodes\<close> returns from every allocated node and state, and
  what it returns is the outcome of tree descent: while the current node has no untried
  action and has a child, the next node is a child whose \<open>ucb\<close> score is maximal among the
  children, scored with the opponent flag \<open>bot_identity \<noteq> current_player\<close> of the state
  before the move, and the state advances by the engine's transition on that child's
  parent action. A returned node has an untried action or no child, and it is returned
  with the state so reached. When scoring a child raises (an overflow in the arithmetic,
  say), \<open>traverse_nodes\<close> raises that error; when no scoring raises, a node is returned.
\<close>

theorem traverse_nodes_float_descends:
  assumes "tree_inv h" "node < used h" "weak_order_on (scores fl h) (gt_float fl)"
  shows "\<exists>res. traverse_nodes_float fl next_state_none h board node state bot_identity = Some res \<and>
           descent_float fl h board bot_identity node state res \<and>
           (\<forall>n' s'. res = Inr (n', s') \<longrightarrow>
              (untried_actions (cells h n') \<noteq> [] \<or> child_nodes (cells h n') = []) \<and>
              n' < used h) \<and>
           ((\<forall>n c is_opponent. c \<in> snd ` set (child_nodes (cells h n)) \<longrightarrow>
                (\<exists>sc. ucb_float fl h c is_opponent = Inr sc)) \<longrightarrow>
            (\<exists>n' s'. res = Inr (n', s')))"
proof -
  from traverse_float_descent[OF assms(1,3,2), of next_state_none board state bot_identity]
  obtain res where
    r: "traverse_nodes_float fl next_state_none h board node state bot_identity = Some res"
       "descent_float fl h board bot_identity node state res"
       "\<forall>n' s'. res = Inr (n', s') \<longrightarrow>
              (untried_actions (cells h n') \<noteq> [] \<or> child_nodes (cells h n') = []) \<and>
              n' < used h"
    by blast
  have "\<exists>n' s'. res = Inr (n', s')"
    if "\<forall>n c is_opponent. c \<in> snd ` set (child_nodes (cells h n)) \<longrightarrow>
                (\<exists>sc. ucb_float fl h c is_opponent = Inr sc)"
    using descent_float_no_raise[OF _ r(2)] that by blast
  with r show ?thesis by blast
qed

theorem traverse_nodes_float_descends_witness:
  "tree_inv descent_heap \<and> 0 < used descent_heap \<and>
   weak_order_on (scores ideal_float descent_heap) (gt_float ideal_float) \<and>
   traverse_nodes_float ideal_float (\<lambda>_. Inl TypeError) descent_heap nim 0 (2, 1) 1 =
     Some (Inr (2, (1, 2))) \<and>
   descent_float ideal_float descent_heap nim 1 0 (2, 1) (Inr (2, (1, 2))) \<and>
   untried_actions (cells descent_heap 2) \<noteq> [] \<and>
   weak_order_on (scores overflowing_float descent_heap) (gt_float overflowing_float) \<and>
   traverse_nodes_float overflowing_float (\<lambda>_. Inl TypeError) descent_heap nim 0 (2, 1) 1 =
     Some (Inl OverflowError) \<and>
   descent_float overflowing_float descent_heap nim 1 0 (2, 1) (Inl OverflowError)"
proof -
  have u: "0 < used descent_heap" by (simp add: descent_heap_cells)
  have g: "gt_float ideal_float = score_gt" "gt_float overflowing_float = score_gt"
    by (simp_all add: ideal_float_def overflowing_float_def)
  have w1: "weak_order_on (scores ideal_float descent_heap) (gt_float ideal_float)"
    unfolding g by (rule weak_order_on_weak_order[OF weak_order_score])
  have w2: "weak_order_on (scores overflowing_float descent_heap) (gt_float overflowing_float)"
    unfolding g by (rule weak_order_on_weak_order[OF weak_order_score])
  from traverse_nodes_float_descends [OF descent_heap_tree_inv u w1,
      of "\<lambda>_. Inl TypeError" nim "(2, 1)" 1]
  obtain res where
    r: "traverse_nodes_float ideal_float (\<lambda>_. Inl TypeError) descent_heap nim 0 (2, 1) 1 = Some res"
       "descent_float ideal_float descent_heap nim 1 0 (2, 1) res"
    by blast
  from traverse_nodes_float_descends [OF descent_heap_tree_inv u w2,
      of "\<lambda>_. Inl TypeError" nim "(2, 1)" 1]
  obtain res2 where
    r2: "traverse_nodes_float overflowing_float (\<lambda>_. Inl TypeError) descent_heap nim 0 (2, 1) 1 =
           Some res2"
        "descent_float overflowing_float descent_heap nim 1 0 (2, 1) res2"
    by blast
  have k1: "ucb_float ideal_float descent_heap (Suc 0) False = Inr (Fin 1)"
    by (simp add: ucb_float_def ideal_float_def descent_heap_cells explore_faction_def)
  have k2: "ucb_float ideal_float descent_heap 2 False = Inr Inf"
    by (simp add: ucb_float_def ideal_float_def descent_heap_cells)
  have m: "py_max (\<lambda>child. ucb_float ideal_float descent_heap child
                              (1 \<noteq> current_player nim (2, 1)))
             (gt_float ideal_float) (map snd (child_nodes (cells descent_heap 0))) = Inr 2"
    by (simp add: py_max_def descent_heap_cells nim_def k1 k2 g)
  have "traverse_nodes_float ideal_float (\<lambda>_. Inl TypeError) descent_heap nim 0 (2, 1) 1 =
        traverse_nodes_float ideal_float (\<lambda>_. Inl TypeError) descent_heap nim 2
          (next_state nim (2, 1) (0, 0, 0, 0)) 1"
    by (rule traverse_float_step[OF _ _ m]) (simp_all add: descent_heap_cells)
  also have "\<dots> = Some (Inr (2, next_state nim (2, 1) (0, 0, 0, 0)))"
    by (rule traverse_float_stop) (simp add: descent_heap_cells)
  also have "next_state nim (2, 1) (0, 0, 0, 0) = (1, 2)" by (simp add: nim_def)
  finally have t: "traverse_nodes_float ideal_float (\<lambda>_. Inl TypeError) descent_heap nim 0 (2, 1) 1
                   = Some (Inr (2, (1, 2)))" .
  have k3: "ucb_float overflowing_float descent_heap (Suc 0) False = Inl OverflowError"
    by (simp add: ucb_float_def ideal_float_def overflowing_float_def descent_heap_cells)
  have m2: "py_max (\<lambda>child. ucb_float overflowing_float descent_heap child
                              (1 \<noteq> current_player nim (2, 1)))
             (gt_float overflowing_float) (map snd (child_nodes (cells descent_heap 0))) =
            Inl OverflowError"
    by (simp add: py_max_def descent_heap_cells nim_def k3)
  have t2: "traverse_nodes_float overflowing_float (\<lambda>_. Inl TypeError) descent_heap nim 0 (2, 1) 1
            = Some (Inl OverflowError)"
    by (rule traverse_float_raise[OF _ _ m2]) (simp_all add: descent_heap_cells)
  from r(1) t have "res = Inr (2, (1, 2))" by simp
  moreover from r2(1) t2 have "res2 = Inl OverflowError" by simp
  ultimately show ?thesis
    using r(2) r2(2) t t2 u w1 w2 descent_heap_tree_inv by (simp add: descent_heap_cells)
qed


end
